theory Spec2Isabelle
  imports Main "HOL-Library.AList" "HOL-Library.Multiset"
begin

unbundle bit_operations_syntax

section \<open>The document model of DjVuDocument.js\<close>

text \<open>
  A shallow embedding of the class \<open>DjVuDocument\<close> (library/src/DjVuDocument.js).
  The class mutates its own fields, so every method takes the document and returns the
  updated one together with its result; a method that throws returns the error and the
  document as the throw leaves it.

  Page objects are shared between the slot array \<open>pages\<close> and the field
  \<open>lastRequestedPage\<close>, and \<open>reset()\<close> mutates the page through either
  path. Pages therefore live in a store (\<open>heap\<close>), and a slot holds a reference.
  A field that JavaScript leaves \<open>undefined\<close> is \<open>None\<close>: \<open>memoryUsage\<close>,
  \<open>loadedPageNumbers\<close> and \<open>idToPageNumberMap\<close> are assigned only for
  multi-page documents, \<open>dirm\<close> only for \<open>FORMDJVM\<close>.
  Plain objects used as dictionaries are association lists in insertion order and stand
  for the own properties of the object.
\<close>

subsection \<open>Errors\<close>

datatype error =
    IncorrectFileFormatDjVuError
  | NoSuchPageDjVuError int
  | CorruptedFileDjVuError
  | NoBaseUrlDjVuError
  | UnsuccessfulRequestDjVuError "int option" "string option"
  | NetworkDjVuError "int option" "string option" string
  | TypeError

subsection \<open>Pages, shared resources and the directory\<close>

text \<open>
  The classes DjVuPage, DjViChunk and DIRMChunk are imported by the source file. A page
  is what the document reads from it: \<open>bs.buffer.byteLength\<close>, \<open>bs.length\<close>,
  \<open>getDependencies()\<close>, and whether it holds decode state, which \<open>reset()\<close>
  drops.
\<close>

record page_obj =
  byteLength :: nat
  bsLength :: nat
  dependencies :: "string list"
  decoded :: bool

record djvi_chunk =
  chunk_byteLength :: nat

text \<open>
  Modelled from the spec: the directory decoder DIRMChunk. The directory has one entry per
  file of the container, in container order; an entry has a flag word, a byte size, an
  identifier, a stored name, a title and an offset. The source reads them as the parallel
  arrays \<open>flags[i]\<close>, \<open>sizes[i]\<close>, \<open>ids[i]\<close>, \<open>names[i]\<close>,
  \<open>titles[i]\<close>, \<open>offsets[i]\<close> for \<open>i < nfiles\<close>.
\<close>

record dirm_entry =
  e_flags :: int
  e_size :: nat
  e_id :: string
  e_name :: string
  e_title :: string
  e_offset :: nat

record dirm_chunk =
  dflags :: int
  isBundled :: bool
  entries :: "dirm_entry list"

definition nfiles :: "dirm_chunk \<Rightarrow> nat" where
  "nfiles dm = length (entries dm)"

definition isPageFlag :: "int \<Rightarrow> bool" where
  "isPageFlag f = (f AND 63 = 1)"

text \<open>
  Modelled from the spec: \<open>dirm.getPagesQuantity()\<close>, the directory's page count, is
  the number of entries flagged as pages.
\<close>

definition dirm_getPagesQuantity :: "dirm_chunk \<Rightarrow> nat" where
  "dirm_getPagesQuantity dm = length (filter (\<lambda>e. isPageFlag (e_flags e)) (entries dm))"

subsection \<open>The document\<close>

record doc =
  baseUrl :: "string option"
  memoryLimit :: int
  memoryUsage :: "int option"
  djvi :: "(string \<times> djvi_chunk) list"
  doc_id :: string
  dirm :: "dirm_chunk option"
  navm :: bool
  pages :: "nat option list"
  idToPageNumberMap :: "(string \<times> nat) list option"
  loadedPageNumbers :: "nat list option"
  lastRequestedPage :: "nat option"
  isOnePageDependenciesLoaded :: bool
  heap :: "nat \<Rightarrow> page_obj"
  next_ref :: nat
  fetchLog :: "string list"

text \<open>
  \<open>heap\<close> and \<open>next_ref\<close> are the store of page objects and its allocation
  counter; \<open>fetchLog\<close> records the URL of every \<open>fetch\<close> the document issues.
\<close>

text \<open>\<open>a[i]\<close> for a JavaScript array: \<open>undefined\<close> out of range.\<close>

definition js_nth :: "'a list \<Rightarrow> int \<Rightarrow> 'a option" where
  "js_nth xs i = (if 0 \<le> i \<and> i < int (length xs) then Some (xs ! nat i) else None)"

definition slot :: "nat option list \<Rightarrow> int \<Rightarrow> nat option" where
  "slot ps i = (case js_nth ps i of None \<Rightarrow> None | Some s \<Rightarrow> s)"

definition isBundled_doc :: "doc \<Rightarrow> bool" where
  "isBundled_doc d = (case dirm d of Some dm \<Rightarrow> isBundled dm | None \<Rightarrow> True)"

definition getPagesQuantity :: "doc \<Rightarrow> nat" where
  "getPagesQuantity d = (case dirm d of Some dm \<Rightarrow> dirm_getPagesQuantity dm | None \<Rightarrow> 1)"

definition getMemoryUsage :: "doc \<Rightarrow> int option" where
  "getMemoryUsage d = memoryUsage d"

definition getMemoryLimit :: "doc \<Rightarrow> int" where
  "getMemoryLimit d = memoryLimit d"

definition setMemoryLimit :: "int \<Rightarrow> doc \<Rightarrow> doc" where
  "setMemoryLimit limit d = d\<lparr>memoryLimit := limit\<rparr>"

definition getPageUnsafe :: "doc \<Rightarrow> int \<Rightarrow> nat option" where
  "getPageUnsafe d number = slot (pages d) (number - 1)"

definition reset_page :: "nat \<Rightarrow> doc \<Rightarrow> doc" where
  "reset_page r d = d\<lparr>heap := (heap d)(r := (heap d r)\<lparr>decoded := False\<rparr>)\<rparr>"

definition resetLastRequestedPage :: "doc \<Rightarrow> doc" where
  "resetLastRequestedPage d =
     (case lastRequestedPage d of
        Some r \<Rightarrow> (reset_page r d)\<lparr>lastRequestedPage := None\<rparr>
      | None \<Rightarrow> d\<lparr>lastRequestedPage := None\<rparr>)"

text \<open>\<open>this.memoryUsage += n\<close>: an undefined counter stays without a value (NaN).\<close>

definition add_usage :: "int \<Rightarrow> doc \<Rightarrow> doc" where
  "add_usage n d = d\<lparr>memoryUsage := map_option (\<lambda>m. m + n) (memoryUsage d)\<rparr>"

subsection \<open>The transport and the other collaborators\<close>

text \<open>
  A fetched file is what the document reads from the response body: its byte length, the
  first four bytes, the chunk identifier (the tag, and the secondary tag after the
  length), and the dependencies which a DjVuPage built on it reports.
  \<open>fetch\<close> either fails to connect or gives a response with its \<open>ok\<close> flag.
  \<open>pageName\<close> and \<open>componentName\<close> are the directory's lookups
  \<open>getPageNameByItsNumber\<close> and \<open>getComponentNameByItsId\<close>.
  \<open>completionTime\<close> is the time at which the fetch of a dependency completes: the
  callbacks of one concurrent batch run in the order of these times.
\<close>

record payload =
  p_byteLength :: nat
  p_magic :: string
  p_chunkId :: string
  p_bsLength :: nat
  p_dependencies :: "string list"

datatype fetch_result = NetworkFailure | Response bool payload

record env =
  fetch :: "string \<Rightarrow> fetch_result"
  pageName :: "int \<Rightarrow> string"
  componentName :: "string \<Rightarrow> string"
  completionTime :: "string \<Rightarrow> nat"

subsection \<open>releaseMemoryIfRequired\<close>

definition usage_le_limit :: "doc \<Rightarrow> bool" where
  "usage_le_limit d = (case memoryUsage d of Some m \<Rightarrow> m \<le> memoryLimit d | None \<Rightarrow> False)"

definition usage_gt_limit :: "doc \<Rightarrow> bool" where
  "usage_gt_limit d = (case memoryUsage d of Some m \<Rightarrow> m > memoryLimit d | None \<Rightarrow> False)"

text \<open>
  The loop \<open>while (memoryUsage > memoryLimit && loadedPageNumbers.length)\<close>. Reading
  \<open>.length\<close> of an undefined list, or \<open>.bs\<close> of an empty slot, throws.
\<close>

function evict_pages :: "doc \<Rightarrow> error option \<times> doc" where
  "evict_pages d =
     (if usage_gt_limit d then
        (case loadedPageNumbers d of
           None \<Rightarrow> (Some TypeError, d)
         | Some [] \<Rightarrow> (None, d)
         | Some (number # rest) \<Rightarrow>
             (case slot (pages d) (int number) of
                None \<Rightarrow> (Some TypeError, d\<lparr>loadedPageNumbers := Some rest\<rparr>)
              | Some p \<Rightarrow>
                  evict_pages
                    ((add_usage (- int (byteLength (heap d p)))
                       (d\<lparr>loadedPageNumbers := Some rest\<rparr>))
                     \<lparr>pages := (pages d)[number := None]\<rparr>)))
      else (None, d))"
  by pat_completeness auto
termination
  by (relation "measure (\<lambda>d. case loadedPageNumbers d of None \<Rightarrow> 0 | Some l \<Rightarrow> length l)")
     (auto simp: add_usage_def)

declare evict_pages.simps [simp del]

text \<open>
  \<open>preservedDependencies.forEach\<close>: each identifier is copied into the new map and
  its length added to the counter; a missing resource throws at \<open>.bs\<close>.
\<close>

fun preserve_loop ::
  "(string \<times> djvi_chunk) list \<Rightarrow> string list \<Rightarrow> (string \<times> djvi_chunk) list \<Rightarrow> doc
     \<Rightarrow> error option \<times> (string \<times> djvi_chunk) list \<times> doc" where
  "preserve_loop old [] newDjVi d = (None, newDjVi, d)"
| "preserve_loop old (i # is) newDjVi d =
     (case map_of old i of
        None \<Rightarrow> (Some TypeError, newDjVi, d)
      | Some c \<Rightarrow>
          preserve_loop old is (AList.update i c newDjVi)
            (add_usage (int (chunk_byteLength c)) d))"

fun subtract_all :: "(string \<times> djvi_chunk) list \<Rightarrow> doc \<Rightarrow> doc" where
  "subtract_all [] d = d"
| "subtract_all ((k, c) # kcs) d = subtract_all kcs (add_usage (- int (chunk_byteLength c)) d)"

definition release_dictionaries :: "string list option \<Rightarrow> doc \<Rightarrow> error option \<times> doc" where
  "release_dictionaries preservedDependencies d =
     (let d1 = resetLastRequestedPage d in
      case preserve_loop (djvi d1)
             (case preservedDependencies of None \<Rightarrow> [] | Some ps \<Rightarrow> ps) [] d1 of
        (Some e, newDjVi, d2) \<Rightarrow> (Some e, d2)
      | (None, newDjVi, d2) \<Rightarrow> (None, (subtract_all (djvi d2) d2)\<lparr>djvi := newDjVi\<rparr>))"

definition releaseMemoryIfRequired :: "string list option \<Rightarrow> doc \<Rightarrow> error option \<times> doc" where
  "releaseMemoryIfRequired preservedDependencies d =
     (if usage_le_limit d then (None, d)
      else
        (case evict_pages d of
           (Some e, d1) \<Rightarrow> (Some e, d1)
         | (None, d1) \<Rightarrow>
             if usage_gt_limit d1 \<and> loadedPageNumbers d1 = Some []
             then release_dictionaries preservedDependencies d1
             else (None, d1)))"

subsection \<open>Loading the dependencies of a page\<close>

text \<open>\<open>this.baseUrl + name\<close>: a null base location concatenates as the text null.\<close>

definition baseUrl_str :: "doc \<Rightarrow> string" where
  "baseUrl_str d = (case baseUrl d of None \<Rightarrow> ''null'' | Some b \<Rightarrow> b)"

definition dependency_url :: "env \<Rightarrow> doc \<Rightarrow> string \<Rightarrow> string" where
  "dependency_url en d i =
     baseUrl_str d @ (case dirm d of Some dm \<Rightarrow> componentName en i | None \<Rightarrow> i)"

text \<open>
  The body of one callback of the batch after its \<open>fetch\<close> has completed: it
  validates the response and installs the resource by itself.
\<close>

definition load_one :: "env \<Rightarrow> int option \<Rightarrow> string \<Rightarrow> doc \<Rightarrow> error + doc" where
  "load_one en pageNumber i d =
     (let url = dependency_url en d i in
      case fetch en url of
        NetworkFailure \<Rightarrow> Inl (NetworkDjVuError pageNumber (Some i) url)
      | Response ok body \<Rightarrow>
          if \<not> ok then Inl (UnsuccessfulRequestDjVuError pageNumber (Some i))
          else if p_magic body \<noteq> ''AT&T'' then Inl CorruptedFileDjVuError
          else if p_chunkId body \<noteq> ''FORMDJVI'' then Inl CorruptedFileDjVuError
          else Inr (add_usage (int (p_byteLength body))
                 (d\<lparr>djvi := AList.update i \<lparr>chunk_byteLength = p_byteLength body\<rparr> (djvi d)\<rparr>)))"

text \<open>
  \<open>Promise.all\<close> over the callbacks: every fetch is issued at once, the callbacks
  finish in the order of their completion times, and the first one that throws rejects the
  batch. The document returned with an error is the document at that rejection.
\<close>

fun run_batch :: "env \<Rightarrow> int option \<Rightarrow> string list \<Rightarrow> doc \<Rightarrow> error option \<times> doc" where
  "run_batch en pageNumber [] d = (None, d)"
| "run_batch en pageNumber (i # is) d =
     (case load_one en pageNumber i d of
        Inl e \<Rightarrow> (Some e, d)
      | Inr d' \<Rightarrow> run_batch en pageNumber is d')"

definition loadDependencies ::
  "env \<Rightarrow> string list \<Rightarrow> int option \<Rightarrow> doc \<Rightarrow> error option \<times> doc" where
  "loadDependencies en deps pageNumber d =
     (let unloadedDependencies = filter (\<lambda>i. map_of (djvi d) i = None) deps in
      if unloadedDependencies = [] then (None, d)
      else run_batch en pageNumber (sort_key (completionTime en) unloadedDependencies)
             (d\<lparr>fetchLog := fetchLog d @ map (dependency_url en d) unloadedDependencies\<rparr>))"

subsection \<open>getPage\<close>

definition new_page :: "payload \<Rightarrow> doc \<Rightarrow> nat \<times> doc" where
  "new_page body d =
     (next_ref d,
      d\<lparr>heap := (heap d)(next_ref d :=
           \<lparr>byteLength = p_byteLength body, bsLength = p_bsLength body,
            dependencies = p_dependencies body, decoded = False\<rparr>),
        next_ref := Suc (next_ref d)\<rparr>)"

text \<open>
  The last three statements of the loading branch: the slot is assigned, the page number is
  pushed to the load-order list, and the page becomes the last requested one.
\<close>

definition install_page :: "int \<Rightarrow> nat \<Rightarrow> doc \<Rightarrow> (error + nat option) \<times> doc" where
  "install_page number r d =
     (let d1 = d\<lparr>pages := (pages d)[nat (number - 1) := Some r]\<rparr> in
      case loadedPageNumbers d1 of
        None \<Rightarrow> (Inl TypeError, d1)
      | Some l \<Rightarrow>
          (Inr (Some r),
           d1\<lparr>loadedPageNumbers := Some (l @ [nat (number - 1)]),
              lastRequestedPage := Some r\<rparr>))"

definition fetch_page :: "env \<Rightarrow> int \<Rightarrow> string \<Rightarrow> doc \<Rightarrow> (error + nat option) \<times> doc" where
  "fetch_page en number b d =
     (let url = b @ pageName en number;
          d1 = d\<lparr>fetchLog := fetchLog d @ [url]\<rparr> in
      case fetch en url of
        NetworkFailure \<Rightarrow> (Inl (NetworkDjVuError (Some number) None url), d1)
      | Response ok body \<Rightarrow>
          if \<not> ok then (Inl (UnsuccessfulRequestDjVuError (Some number) None), d1)
          else if p_magic body \<noteq> ''AT&T'' then (Inl CorruptedFileDjVuError, d1)
          else
            (case new_page body d1 of
               (r, d2) \<Rightarrow>
                 (case loadDependencies en (dependencies (heap d2 r)) (Some number)
                         (add_usage (int (p_byteLength body)) d2) of
                    (Some e, d3) \<Rightarrow> (Inl e, d3)
                  | (None, d3) \<Rightarrow>
                      (case releaseMemoryIfRequired (Some (dependencies (heap d3 r))) d3 of
                         (Some e, d4) \<Rightarrow> (Inl e, d4)
                       | (None, d4) \<Rightarrow> install_page number r d4))))"

definition getPage :: "env \<Rightarrow> int \<Rightarrow> doc \<Rightarrow> (error + nat option) \<times> doc" where
  "getPage en number d =
     (let page = slot (pages d) (number - 1);
          d1 = (case lastRequestedPage d of
                  Some l \<Rightarrow> if Some l \<noteq> page then reset_page l d else d
                | None \<Rightarrow> d);
          d2 = d1\<lparr>lastRequestedPage := page\<rparr> in
      case page of
        None \<Rightarrow>
          if number < 1 \<or> number > int (length (pages d2)) \<or> isBundled_doc d2
          then (Inl (NoSuchPageDjVuError number), d2)
          else
            (case baseUrl d2 of
               None \<Rightarrow> (Inl NoBaseUrlDjVuError, d2)
             | Some b \<Rightarrow> fetch_page en number b d2)
      | Some p \<Rightarrow>
          if \<not> isOnePageDependenciesLoaded d2 \<and> doc_id d2 = ''FORMDJVU'' then
            (if dependencies (heap d2 p) \<noteq> [] then
               (case loadDependencies en (dependencies (heap d2 p)) (Some 1) d2 of
                  (Some e, d3) \<Rightarrow> (Inl e, d3)
                | (None, d3) \<Rightarrow>
                    (Inr (lastRequestedPage d3), d3\<lparr>isOnePageDependenciesLoaded := True\<rparr>))
             else (Inr (lastRequestedPage d2), d2\<lparr>isOnePageDependenciesLoaded := True\<rparr>))
          else (Inr (lastRequestedPage d2), d2))"

subsection \<open>getPageNumberByUrl\<close>

text \<open>
  \<open>Math.round(Number(ref))\<close> is the language's own string-to-number conversion and
  rounding; it is a parameter \<open>roundNumber\<close>, with \<open>None\<close> for a result that is
  not a finite number (such a result fails both comparisons). A page number that is
  \<open>undefined\<close> or 0 is falsy. The map is read even when the field was never assigned,
  which throws.
\<close>

definition truthy :: "int option \<Rightarrow> bool" where
  "truthy v = (case v of None \<Rightarrow> False | Some n \<Rightarrow> n \<noteq> 0)"

definition getPageNumberByUrl ::
  "(string \<Rightarrow> int option) \<Rightarrow> doc \<Rightarrow> string \<Rightarrow> error + int option" where
  "getPageNumberByUrl roundNumber d url =
     (case url of
        [] \<Rightarrow> Inr None
      | c # ref \<Rightarrow>
          if c \<noteq> CHR ''#'' then Inr None
          else
            (case idToPageNumberMap d of
               None \<Rightarrow> Inl TypeError
             | Some m \<Rightarrow>
                 (let pageNumber = map_option int (map_of m ref);
                      pageNumber' =
                        (if \<not> truthy pageNumber then
                           (case roundNumber ref of
                              Some num \<Rightarrow>
                                if num \<ge> 1 \<and> num \<le> int (length (pages d)) then Some num
                                else pageNumber
                            | None \<Rightarrow> pageNumber)
                         else pageNumber)
                  in Inr (if truthy pageNumber' then pageNumber' else None))))"

subsection \<open>The constructor\<close>

text \<open>
  The constructor reads the buffer through a ByteStream, which is not part of the source
  file. A \<open>buffer_view\<close> is what it reads: the byte length, the format signature, the
  identifier of the first chunk, the tag where the directory is expected, the decoded
  directory, whether a NAVM chunk follows, and, for an offset, the chunk identifier found
  there and the page or shared resource built on that chunk.
\<close>

record buffer_view =
  bv_byteLength :: nat
  bv_formatID :: string
  bv_id :: string
  bv_dirm_id :: string
  bv_dirm :: dirm_chunk
  bv_navm :: bool
  bv_chunk_id :: "nat \<Rightarrow> string"
  bv_page :: "nat \<Rightarrow> page_obj"
  bv_djvi :: "nat \<Rightarrow> djvi_chunk"

definition MEMORY_LIMIT :: int where
  "MEMORY_LIMIT = 50 * 1024 * 1024"

definition is_space :: "char \<Rightarrow> bool" where
  "is_space c = (c \<in> set [CHR 0x20, CHR 0x09, CHR 0x0A, CHR 0x0B, CHR 0x0C, CHR 0x0D])"

definition trim :: "string \<Rightarrow> string" where
  "trim s = rev (dropWhile is_space (rev (dropWhile is_space s)))"

text \<open>
  Lines 23 to 31: \<open>baseUrl && baseUrl.trim()\<close> keeps null and the empty text; a
  non-empty result gets a final slash and, unless it starts with http, is made absolute by
  the platform's URL resolution (the parameter \<open>resolve\<close>).
\<close>

definition init_baseUrl :: "(string \<Rightarrow> string) \<Rightarrow> string option \<Rightarrow> string option" where
  "init_baseUrl resolve b =
     (case b of
        None \<Rightarrow> None
      | Some s \<Rightarrow>
          if s = [] then Some []
          else
            (let t = trim s in
             if t = [] then Some []
             else
               (let t1 = (if last t \<noteq> CHR ''/'' then t @ ''/'' else t)
                in Some (if take 4 t1 \<noteq> ''http'' then resolve t1 else t1))))"

definition empty_page :: page_obj where
  "empty_page = \<lparr>byteLength = 0, bsLength = 0, dependencies = [], decoded = False\<rparr>"

definition blank_doc :: "string option \<Rightarrow> int \<Rightarrow> doc" where
  "blank_doc b limit =
     \<lparr>baseUrl = b, memoryLimit = limit, memoryUsage = None, djvi = [], doc_id = [],
      dirm = None, navm = False, pages = [], idToPageNumberMap = None,
      loadedPageNumbers = None, lastRequestedPage = None,
      isOnePageDependenciesLoaded = False, heap = (\<lambda>_. empty_page), next_ref = 0,
      fetchLog = []\<rparr>"

definition alloc_page :: "page_obj \<Rightarrow> doc \<Rightarrow> nat \<times> doc" where
  "alloc_page p d = (next_ref d, d\<lparr>heap := (heap d)(next_ref d := p), next_ref := Suc (next_ref d)\<rparr>)"

text \<open>
  \<open>_parseComponents\<close>: one step per directory entry. Thumbnails and the list
  \<open>dirmOrderedChunks\<close> serve only the metadata dump and are left out.
\<close>

fun parseComponents :: "buffer_view \<Rightarrow> dirm_entry list \<Rightarrow> doc \<Rightarrow> doc" where
  "parseComponents bv [] d = d"
| "parseComponents bv (e # es) d =
     (let cid = bv_chunk_id bv (e_offset e) in
      if cid = ''FORMDJVU'' then
        (case alloc_page (bv_page bv (e_offset e)) d of
           (r, d1) \<Rightarrow>
             parseComponents bv es
               (d1\<lparr>pages := pages d1 @ [Some r],
                   idToPageNumberMap :=
                     map_option (AList.update (e_id e) (Suc (length (pages d1))))
                       (idToPageNumberMap d1)\<rparr>))
      else if cid = ''FORMDJVI'' then
        parseComponents bv es
          (d\<lparr>djvi := AList.update (e_id e) (bv_djvi bv (e_offset e)) (djvi d)\<rparr>)
      else parseComponents bv es d)"

definition initMultiPageDocument :: "buffer_view \<Rightarrow> doc \<Rightarrow> error + doc" where
  "initMultiPageDocument bv d =
     (if bv_dirm_id bv \<noteq> ''DIRM'' then Inl CorruptedFileDjVuError
      else
        (let d1 = d\<lparr>dirm := Some (bv_dirm bv), navm := bv_navm bv, pages := [],
                     idToPageNumberMap := Some []\<rparr>
         in if isBundled (bv_dirm bv) then Inr (parseComponents bv (entries (bv_dirm bv)) d1)
            else Inr (d1\<lparr>pages := replicate (dirm_getPagesQuantity (bv_dirm bv)) None,
                         memoryUsage := Some (int (bv_byteLength bv)),
                         loadedPageNumbers := Some []\<rparr>)))"

definition DjVuDocument ::
  "(string \<Rightarrow> string) \<Rightarrow> buffer_view \<Rightarrow> string option \<Rightarrow> int \<Rightarrow> error + doc" where
  "DjVuDocument resolve bv b limit =
     (let d = blank_doc (init_baseUrl resolve b) limit in
      if bv_formatID bv \<noteq> ''AT&T'' then Inl IncorrectFileFormatDjVuError
      else
        (let d1 = d\<lparr>doc_id := bv_id bv\<rparr> in
         if bv_id bv = ''FORMDJVM'' then initMultiPageDocument bv d1
         else if bv_id bv = ''FORMDJVU'' then
           (case alloc_page (bv_page bv 4) d1 of (r, d2) \<Rightarrow> Inr (d2\<lparr>pages := [Some r]\<rparr>))
         else Inl CorruptedFileDjVuError))"

subsection \<open>slice\<close>

text \<open>
  \<open>pageDeps offset size\<close> is \<open>getDependencies()\<close> of the page decoded from that
  byte span of the buffer. The object \<open>dependencies\<close> is used as a set of keys. Each
  \<open>for\<close> loop runs over the directory entries while
  \<open>addedPageCount < pageNumber\<close>.
\<close>

fun slice_pass1 ::
  "(nat \<Rightarrow> nat \<Rightarrow> string list) \<Rightarrow> int \<Rightarrow> int \<Rightarrow> dirm_entry list \<Rightarrow> int \<Rightarrow> int
     \<Rightarrow> string list \<Rightarrow> string list" where
  "slice_pass1 pageDeps from pageNumber [] pageIndex addedPageCount deps = deps"
| "slice_pass1 pageDeps from pageNumber (e # es) pageIndex addedPageCount deps =
     (if addedPageCount < pageNumber then
        (if isPageFlag (e_flags e) then
           (if pageIndex + 1 < from
            then slice_pass1 pageDeps from pageNumber es (pageIndex + 1) addedPageCount deps
            else slice_pass1 pageDeps from pageNumber es (pageIndex + 1) (addedPageCount + 1)
                   (fold List.insert (pageDeps (e_offset e) (e_size e)) deps))
         else slice_pass1 pageDeps from pageNumber es pageIndex addedPageCount deps)
      else deps)"

fun slice_pass2 ::
  "string list \<Rightarrow> int \<Rightarrow> int \<Rightarrow> dirm_entry list \<Rightarrow> int \<Rightarrow> int \<Rightarrow> dirm_entry list" where
  "slice_pass2 deps from pageNumber [] pageIndex addedPageCount = []"
| "slice_pass2 deps from pageNumber (e # es) pageIndex addedPageCount =
     (if addedPageCount < pageNumber then
        (if isPageFlag (e_flags e) then
           (if pageIndex + 1 < from
            then slice_pass2 deps from pageNumber es (pageIndex + 1) addedPageCount
            else e # slice_pass2 deps from pageNumber es (pageIndex + 1) (addedPageCount + 1))
         else
           (if e_id e \<in> set deps
            then e # slice_pass2 deps from pageNumber es pageIndex addedPageCount
            else slice_pass2 deps from pageNumber es pageIndex addedPageCount))
      else [])"

text \<open>
  What \<open>slice\<close> hands to the writer: the directory flags, the copied entries (their
  metadata and their byte span \<open>offset, size\<close>) and whether the NAVM chunk is written.
\<close>

record slice_out =
  s_dflags :: int
  s_entries :: "dirm_entry list"
  s_navm :: bool

definition slice ::
  "(nat \<Rightarrow> nat \<Rightarrow> string list) \<Rightarrow> doc \<Rightarrow> int \<Rightarrow> int \<Rightarrow> error + slice_out" where
  "slice pageDeps d from to =
     (case dirm d of
        None \<Rightarrow> Inl TypeError
      | Some dm \<Rightarrow>
          (let pageNumber = to - from + 1;
               deps = slice_pass1 pageDeps from pageNumber (entries dm) 0 0 [];
               copied = slice_pass2 deps from pageNumber (entries dm) 0 0
           in Inr \<lparr>s_dflags = dflags dm, s_entries = copied, s_navm = navm d\<rparr>))"

subsection \<open>concat\<close>

text \<open>\<open>tmp.toString()\<close> of a counter: its decimal digits.\<close>

fun toString :: "nat \<Rightarrow> string" where
  "toString n =
     (if n < 10 then [''0123456789'' ! n]
      else toString (n div 10) @ [''0123456789'' ! (n mod 10)])"

declare toString.simps [simp del]

text \<open>A value used as text: \<open>undefined\<close> concatenates as the text undefined.\<close>

definition js_str :: "string option \<Rightarrow> string" where
  "js_str v = (case v of None \<Rightarrow> ''undefined'' | Some s \<Rightarrow> s)"

text \<open>
  The loop \<open>while (idset.has(newid)) { newid = id + tmp.toString(); tmp++; }\<close>; the
  set is a list of its elements.
\<close>

function unique_id ::
  "string option list \<Rightarrow> string option \<Rightarrow> string option \<Rightarrow> nat \<Rightarrow> string option" where
  "unique_id idset base newid tmp =
     (if newid \<in> set idset
      then unique_id idset base (Some (js_str base @ toString tmp)) (Suc tmp)
      else newid)"
  by pat_completeness auto


text \<open>
  The accumulators of \<open>concat\<close>: the arrays \<open>dirm.flags\<close>, \<open>dirm.sizes\<close>,
  \<open>dirm.ids\<close>, the list \<open>pages\<close> and the set \<open>idset\<close>. An array read out of
  range gives \<open>undefined\<close>, which is pushed like any value.
\<close>

record concat_acc =
  c_flags :: "int option list"
  c_sizes :: "nat option list"
  c_ids :: "string option list"
  c_pages :: "page_obj option list"
  c_idset :: "string option list"

definition idset_add :: "string option \<Rightarrow> string option list \<Rightarrow> string option list" where
  "idset_add x s = (if x \<in> set s then s else s @ [x])"

definition page_at :: "doc \<Rightarrow> int \<Rightarrow> page_obj option" where
  "page_at d i = map_option (heap d) (slot (pages d) i)"

fun concat_first_loop :: "doc \<Rightarrow> dirm_chunk \<Rightarrow> nat list \<Rightarrow> concat_acc \<Rightarrow> concat_acc" where
  "concat_first_loop d dm [] a = a"
| "concat_first_loop d dm (i # is) a =
     concat_first_loop d dm is
       (a\<lparr>c_flags := c_flags a @ [map_option e_flags (js_nth (entries dm) (int i))],
          c_sizes := c_sizes a @ [map_option e_size (js_nth (entries dm) (int i))],
          c_ids := c_ids a @ [map_option e_id (js_nth (entries dm) (int i))],
          c_idset := idset_add (map_option e_id (js_nth (entries dm) (int i))) (c_idset a),
          c_pages := c_pages a @ [page_at d (int i)]\<rparr>)"

fun concat_second_loop :: "doc \<Rightarrow> dirm_chunk \<Rightarrow> nat list \<Rightarrow> concat_acc \<Rightarrow> concat_acc" where
  "concat_second_loop d dm [] a = a"
| "concat_second_loop d dm (i # is) a =
     (let base = map_option e_id (js_nth (entries dm) (int i));
          newid = unique_id (c_idset a) base base 0
      in concat_second_loop d dm is
           (a\<lparr>c_flags := c_flags a @ [map_option e_flags (js_nth (entries dm) (int i))],
              c_sizes := c_sizes a @ [map_option e_size (js_nth (entries dm) (int i))],
              c_ids := c_ids a @ [newid],
              c_idset := idset_add newid (c_idset a),
              c_pages := c_pages a @ [page_at d (int i)]\<rparr>))"

definition concat_first :: "doc \<Rightarrow> concat_acc \<Rightarrow> error + concat_acc" where
  "concat_first d a =
     (case dirm d of
        None \<Rightarrow>
          (case page_at d 0 of
             None \<Rightarrow> Inl TypeError
           | Some p \<Rightarrow>
               Inr (a\<lparr>c_flags := c_flags a @ [Some 1],
                      c_sizes := c_sizes a @ [Some (bsLength p)],
                      c_ids := c_ids a @ [Some ''single''],
                      c_idset := idset_add (Some ''single'') (c_idset a),
                      c_pages := c_pages a @ [Some p]\<rparr>))
      | Some dm \<Rightarrow> Inr (concat_first_loop d dm [0..<length (pages d)] a))"

definition concat_second :: "doc \<Rightarrow> concat_acc \<Rightarrow> error + concat_acc" where
  "concat_second d a =
     (case dirm d of
        None \<Rightarrow>
          (case page_at d 0 of
             None \<Rightarrow> Inl TypeError
           | Some p \<Rightarrow>
               Inr (a\<lparr>c_flags := c_flags a @ [Some 1],
                      c_sizes := c_sizes a @ [Some (bsLength p)],
                      c_ids := c_ids a @
                        [unique_id (c_idset a) (Some ''single2'') (Some ''single2'') 0],
                      c_pages := c_pages a @ [Some p]\<rparr>))
      | Some dm \<Rightarrow> Inr (concat_second_loop d dm [0..<length (pages d)] a))"

text \<open>
  What \<open>concat\<close> hands to the writer: the directory description and, for
  \<open>i < doc1.pages.length + doc2.pages.length\<close>, the stream \<open>pages[i].bs\<close>, which
  throws on an entry that is not a page object.
\<close>

record concat_out =
  o_dflags :: int
  o_flags :: "int option list"
  o_sizes :: "nat option list"
  o_ids :: "string option list"
  o_pages :: "page_obj list"

fun written_pages :: "page_obj option list \<Rightarrow> nat list \<Rightarrow> error + page_obj list" where
  "written_pages ps [] = Inr []"
| "written_pages ps (i # is) =
     (case js_nth ps (int i) of
        Some (Some p) \<Rightarrow>
          (case written_pages ps is of Inl e \<Rightarrow> Inl e | Inr rest \<Rightarrow> Inr (p # rest))
      | _ \<Rightarrow> Inl TypeError)"

definition concat_docs :: "doc \<Rightarrow> doc \<Rightarrow> error + concat_out" where
  "concat_docs doc1 doc2 =
     (let len = length (pages doc1) + length (pages doc2);
          a0 = \<lparr>c_flags = [], c_sizes = [], c_ids = [], c_pages = [], c_idset = []\<rparr>
      in case concat_first doc1 a0 of
           Inl e \<Rightarrow> Inl e
         | Inr a1 \<Rightarrow>
             (case concat_second doc2 a1 of
                Inl e \<Rightarrow> Inl e
              | Inr a2 \<Rightarrow>
                  (case written_pages (c_pages a2) [0..<len] of
                     Inl e \<Rightarrow> Inl e
                   | Inr ps \<Rightarrow>
                       Inr \<lparr>o_dflags = 129, o_flags = c_flags a2, o_sizes = c_sizes a2,
                            o_ids = c_ids a2, o_pages = ps\<rparr>)))"

text \<open>
  Modelled from the spec: the directory's document-wide bundled flag, which the decoder
  DIRMChunk reads from the top bit of the directory's flag byte.
\<close>

definition dflags_bundled :: "int \<Rightarrow> bool" where
  "dflags_bundled f = (f AND 128 \<noteq> 0)"

section \<open>Notions for the properties\<close>

subsection \<open>Resident bytes\<close>

text \<open>
  The byte length of what a slot holds, the sum over the slots, the sum over the shared
  resources of a map, and the resident bytes of a document: its loaded pages plus its
  resident shared resources.
\<close>

definition slot_bytes :: "doc \<Rightarrow> nat option \<Rightarrow> int" where
  "slot_bytes d s = (case s of None \<Rightarrow> 0 | Some r \<Rightarrow> int (byteLength (heap d r)))"

definition pages_bytes :: "doc \<Rightarrow> int" where
  "pages_bytes d = sum_list (map (slot_bytes d) (pages d))"

definition alist_bytes :: "(string \<times> djvi_chunk) list \<Rightarrow> int" where
  "alist_bytes al = sum_list (map (\<lambda>kc. int (chunk_byteLength (snd kc))) al)"

definition djvi_bytes :: "doc \<Rightarrow> int" where
  "djvi_bytes d = alist_bytes (djvi d)"

definition resident_bytes :: "doc \<Rightarrow> int" where
  "resident_bytes d = pages_bytes d + djvi_bytes d"

text \<open>
  The slots that hold a page, and the accounting invariant of an indirect document: the
  counter is \<open>H\<close> (the header buffer) plus \<open>x\<close> (a page fetched but not yet in
  its slot) plus the resident bytes; the load-order list names the loaded slots, each once;
  the references in the slots have been allocated; the keys of the resource map are
  pairwise different.
\<close>

definition loaded_slots :: "doc \<Rightarrow> nat set" where
  "loaded_slots d = {i. i < length (pages d) \<and> pages d ! i \<noteq> None}"

definition accounted :: "int \<Rightarrow> int \<Rightarrow> doc \<Rightarrow> bool" where
  "accounted H x d \<longleftrightarrow>
     memoryUsage d = Some (H + x + pages_bytes d + djvi_bytes d)
     \<and> (\<exists>l. loadedPageNumbers d = Some l \<and> distinct l \<and> set l = loaded_slots d)
     \<and> (\<forall>i r. i < length (pages d) \<and> pages d ! i = Some r \<longrightarrow> r < next_ref d)
     \<and> distinct (map fst (djvi d))"

text \<open>
  A sequence of successful page loads from a document \<open>d0\<close>, possibly with changes of
  the budget in between. Each load may meet a different state of the network; its fetched
  pages list every dependency once.
\<close>

definition dependency_sets :: "env \<Rightarrow> bool" where
  "dependency_sets en \<longleftrightarrow>
     (\<forall>url ok body. fetch en url = Response ok body \<longrightarrow> distinct (p_dependencies body))"

inductive successful_loads :: "doc \<Rightarrow> doc \<Rightarrow> bool" for d0 :: doc where
  no_load: "successful_loads d0 d0"
| load: "successful_loads d0 d \<Longrightarrow> dependency_sets en \<Longrightarrow> getPage en n d = (Inr r, d')
           \<Longrightarrow> successful_loads d0 d'"
| new_limit: "successful_loads d0 d \<Longrightarrow> successful_loads d0 (setMemoryLimit limit d)"

subsection \<open>The memory governor in the words of the specification\<close>





definition preserved_list :: "string list option \<Rightarrow> string list" where
  "preserved_list ps = (case ps of None \<Rightarrow> [] | Some l \<Rightarrow> l)"

definition restrict_to ::
  "string list \<Rightarrow> (string \<times> djvi_chunk) list \<Rightarrow> (string \<times> djvi_chunk) list" where
  "restrict_to ps old = List.map_filter (\<lambda>i. map_option (Pair i) (map_of old i)) ps"


subsection \<open>One dependency of a batch\<close>

text \<open>
  Whether the fetch of a dependency gives a well-formed shared resource, the byte length of
  what it gives, the error it raises otherwise, and the document after its callback has
  installed the resource. \<open>batch_order\<close> is the batch of a dependency list, the
  missing identifiers, in the order of completion; \<open>first_failure\<close> the first of
  them whose fetch fails, and \<open>installed_before_failure\<close> those that complete before
  it.
\<close>

definition dep_ok :: "env \<Rightarrow> doc \<Rightarrow> string \<Rightarrow> bool" where
  "dep_ok en d i =
     (case fetch en (dependency_url en d i) of
        NetworkFailure \<Rightarrow> False
      | Response ok body \<Rightarrow> ok \<and> p_magic body = ''AT&T'' \<and> p_chunkId body = ''FORMDJVI'')"

definition dep_size :: "env \<Rightarrow> doc \<Rightarrow> string \<Rightarrow> nat" where
  "dep_size en d i =
     (case fetch en (dependency_url en d i) of
        NetworkFailure \<Rightarrow> 0
      | Response ok body \<Rightarrow> p_byteLength body)"

definition dep_error :: "env \<Rightarrow> int option \<Rightarrow> doc \<Rightarrow> string \<Rightarrow> error" where
  "dep_error en pn d i =
     (case fetch en (dependency_url en d i) of
        NetworkFailure \<Rightarrow> NetworkDjVuError pn (Some i) (dependency_url en d i)
      | Response ok body \<Rightarrow>
          if \<not> ok then UnsuccessfulRequestDjVuError pn (Some i) else CorruptedFileDjVuError)"

definition install_dep :: "env \<Rightarrow> string \<Rightarrow> doc \<Rightarrow> doc" where
  "install_dep en i d =
     add_usage (int (dep_size en d i))
       (d\<lparr>djvi := AList.update i \<lparr>chunk_byteLength = dep_size en d i\<rparr> (djvi d)\<rparr>)"




subsection \<open>Parts of getPage\<close>

text \<open>
  \<open>release_previous\<close> is the effect of lines 202 to 206, which every call runs first;
  \<open>with_new_page\<close> the document after a fetched page has been built and counted.
  \<open>static_eq\<close> relates documents that agree on the fields which no method changes
  after construction, \<open>no_new_decode\<close> documents of which the second holds decode
  state only where the first does. \<open>transport_error\<close> holds for the errors that
  fetching and the governor raise.
\<close>

definition release_previous :: "int \<Rightarrow> doc \<Rightarrow> doc" where
  "release_previous n d =
     (case lastRequestedPage d of
        Some l \<Rightarrow> if Some l \<noteq> slot (pages d) (n - 1) then reset_page l d else d
      | None \<Rightarrow> d)\<lparr>lastRequestedPage := slot (pages d) (n - 1)\<rparr>"

definition with_new_page :: "payload \<Rightarrow> string \<Rightarrow> doc \<Rightarrow> doc" where
  "with_new_page body url d =
     add_usage (int (p_byteLength body)) (snd (new_page body (d\<lparr>fetchLog := fetchLog d @ [url]\<rparr>)))"

definition static_eq :: "doc \<Rightarrow> doc \<Rightarrow> bool" where
  "static_eq d d' \<longleftrightarrow>
     baseUrl d' = baseUrl d \<and> memoryLimit d' = memoryLimit d \<and> doc_id d' = doc_id d
     \<and> dirm d' = dirm d \<and> navm d' = navm d \<and> idToPageNumberMap d' = idToPageNumberMap d"

definition no_new_decode :: "doc \<Rightarrow> doc \<Rightarrow> bool" where
  "no_new_decode d d' \<longleftrightarrow> (\<forall>r. \<not> decoded (heap d r) \<longrightarrow> \<not> decoded (heap d' r))"

definition transport_error :: "error \<Rightarrow> bool" where
  "transport_error e =
     (case e of
        NetworkDjVuError pn i url \<Rightarrow> True
      | UnsuccessfulRequestDjVuError pn i \<Rightarrow> True
      | CorruptedFileDjVuError \<Rightarrow> True
      | TypeError \<Rightarrow> True
      | _ \<Rightarrow> False)"

subsection \<open>Identifiers of a merged directory\<close>

text \<open>
  A document fit for \<open>concat\<close>: every slot holds a page, a document without a
  directory has its one page (\<open>all_loaded\<close>), and the identifiers of a directory are
  pairwise different, the directory having at least as many entries as the document has
  slots (\<open>unique_directory\<close>). \<open>second_ids\<close> are the identifiers which
  \<open>concat\<close> reads for the entries of the second document, and \<open>first_count\<close>
  is the number of entries which it writes for the first one.

  \<open>suffixed used base newid\<close>: the identifier \<open>base\<close> is kept if it is not in
  use; otherwise it is followed by the first counter value, from 0 on, that gives an
  identifier not in use. \<open>suffixed_from\<close> holds for the identifiers that the counter
  can still reach from \<open>tmp\<close> on. \<open>ids_ok\<close> and \<open>ids_eq\<close> are invariants
  of the accumulators.
\<close>

definition all_loaded :: "doc \<Rightarrow> bool" where
  "all_loaded d \<longleftrightarrow>
     (\<forall>s\<in>set (pages d). s \<noteq> None) \<and> (dirm d = None \<longrightarrow> length (pages d) = 1)"

definition unique_directory :: "doc \<Rightarrow> bool" where
  "unique_directory d \<longleftrightarrow>
     (case dirm d of
        None \<Rightarrow> True
      | Some dm \<Rightarrow> distinct (map e_id (entries dm)) \<and> length (pages d) \<le> length (entries dm))"

definition second_ids :: "doc \<Rightarrow> string option list" where
  "second_ids d =
     (case dirm d of
        None \<Rightarrow> [Some ''single2'']
      | Some dm \<Rightarrow> map (\<lambda>i. map_option e_id (js_nth (entries dm) (int i))) [0..<length (pages d)])"

definition first_count :: "doc \<Rightarrow> nat" where
  "first_count d = (case dirm d of None \<Rightarrow> 1 | Some dm \<Rightarrow> length (pages d))"

definition suffixed :: "string option list \<Rightarrow> string option \<Rightarrow> string option \<Rightarrow> bool" where
  "suffixed used base newid \<longleftrightarrow>
     (base \<notin> set used \<and> newid = base)
     \<or> (base \<in> set used
         \<and> (\<exists>k. newid = Some (js_str base @ toString k)
                \<and> (\<forall>j<k. Some (js_str base @ toString j) \<in> set used)))"

definition suffixed_from :: "string option \<Rightarrow> nat \<Rightarrow> string option \<Rightarrow> bool" where
  "suffixed_from base tmp v = (\<exists>k\<ge>tmp. v = Some (js_str base @ toString k))"

definition ids_ok :: "concat_acc \<Rightarrow> bool" where
  "ids_ok a \<longleftrightarrow> distinct (c_ids a) \<and> set (c_ids a) \<subseteq> set (c_idset a)"

definition ids_eq :: "concat_acc \<Rightarrow> bool" where
  "ids_eq a \<longleftrightarrow> distinct (c_ids a) \<and> set (c_idset a) = set (c_ids a)"

subsection \<open>Example documents\<close>

text \<open>
  An indirect document with two pages that share one dictionary, as the constructor builds
  it from a 100-byte header, and a server that holds the three files.
\<close>

definition ex_resolve :: "string \<Rightarrow> string" where
  "ex_resolve s = s"

definition ex_dirm :: dirm_chunk where
  "ex_dirm =
     \<lparr>dflags = 1, isBundled = False,
      entries =
        [\<lparr>e_flags = 1, e_size = 40, e_id = ''p1'', e_name = ''p1.djvu'', e_title = [], e_offset = 0\<rparr>,
         \<lparr>e_flags = 0, e_size = 10, e_id = ''dict'', e_name = ''dict.iff'', e_title = [], e_offset = 0\<rparr>,
         \<lparr>e_flags = 1, e_size = 30, e_id = ''p2'', e_name = ''p2.djvu'', e_title = [], e_offset = 0\<rparr>]\<rparr>"

definition ex_view :: buffer_view where
  "ex_view =
     \<lparr>bv_byteLength = 100, bv_formatID = ''AT&T'', bv_id = ''FORMDJVM'', bv_dirm_id = ''DIRM'',
      bv_dirm = ex_dirm, bv_navm = False, bv_chunk_id = (\<lambda>_. []),
      bv_page = (\<lambda>_. empty_page), bv_djvi = (\<lambda>_. \<lparr>chunk_byteLength = 0\<rparr>)\<rparr>"

definition ex_indirect :: "string option \<Rightarrow> int \<Rightarrow> doc" where
  "ex_indirect b limit =
     \<lparr>baseUrl = b, memoryLimit = limit, memoryUsage = Some 100, djvi = [],
      doc_id = ''FORMDJVM'', dirm = Some ex_dirm, navm = False, pages = [None, None],
      idToPageNumberMap = Some [], loadedPageNumbers = Some [], lastRequestedPage = None,
      isOnePageDependenciesLoaded = False, heap = (\<lambda>_. empty_page), next_ref = 0,
      fetchLog = []\<rparr>"

definition ex_file :: "nat \<Rightarrow> string \<Rightarrow> string list \<Rightarrow> fetch_result" where
  "ex_file n cid deps =
     Response True \<lparr>p_byteLength = n, p_magic = ''AT&T'', p_chunkId = cid, p_bsLength = n - 4,
                    p_dependencies = deps\<rparr>"

definition ex_env :: env where
  "ex_env =
     \<lparr>fetch = (\<lambda>url.
         if url = ''http://h/p1.djvu'' then ex_file 40 ''FORMDJVU'' [''dict'']
         else if url = ''http://h/p2.djvu'' then ex_file 30 ''FORMDJVU'' [''dict'']
         else if url = ''http://h/dict.iff'' then ex_file 10 ''FORMDJVI'' []
         else NetworkFailure),
      pageName = (\<lambda>n. if n = 1 then ''p1.djvu'' else ''p2.djvu''),
      componentName = (\<lambda>i. i @ ''.iff''),
      completionTime = (\<lambda>_. 0)\<rparr>"

text \<open>
  A single-page document whose page has been requested and then decoded by the caller.
\<close>

definition ex_single :: doc where
  "ex_single =
     \<lparr>baseUrl = None, memoryLimit = MEMORY_LIMIT, memoryUsage = None, djvi = [],
      doc_id = ''FORMDJVU'', dirm = None, navm = False, pages = [Some 0],
      idToPageNumberMap = None, loadedPageNumbers = None, lastRequestedPage = Some 0,
      isOnePageDependenciesLoaded = True,
      heap = (\<lambda>_. \<lparr>byteLength = 50, bsLength = 46, dependencies = [], decoded = True\<rparr>),
      next_ref = 1, fetchLog = []\<rparr>"


text \<open>
  A bundled document whose directory lists one page and then the dictionary which the page
  includes, as the constructor builds it; the dependencies which \<open>slice\<close> decodes
  from the page's byte span; and the buffer of a single-page document.
\<close>

definition ex_bundled_dirm :: dirm_chunk where
  "ex_bundled_dirm =
     \<lparr>dflags = 129, isBundled = True,
      entries =
        [\<lparr>e_flags = 1, e_size = 40, e_id = ''p1'', e_name = ''p1.djvu'', e_title = [], e_offset = 48\<rparr>,
         \<lparr>e_flags = 0, e_size = 10, e_id = ''dict'', e_name = ''dict.iff'', e_title = [], e_offset = 88\<rparr>]\<rparr>"

definition ex_page :: page_obj where
  "ex_page = \<lparr>byteLength = 98, bsLength = 40, dependencies = [''dict''], decoded = False\<rparr>"

definition ex_bundled_view :: buffer_view where
  "ex_bundled_view =
     \<lparr>bv_byteLength = 98, bv_formatID = ''AT&T'', bv_id = ''FORMDJVM'', bv_dirm_id = ''DIRM'',
      bv_dirm = ex_bundled_dirm, bv_navm = False,
      bv_chunk_id = (\<lambda>off. if off = 48 then ''FORMDJVU'' else if off = 88 then ''FORMDJVI'' else []),
      bv_page = (\<lambda>_. ex_page), bv_djvi = (\<lambda>_. \<lparr>chunk_byteLength = 98\<rparr>)\<rparr>"

definition ex_bundled :: doc where
  "ex_bundled =
     \<lparr>baseUrl = None, memoryLimit = MEMORY_LIMIT, memoryUsage = None,
      djvi = [(''dict'', \<lparr>chunk_byteLength = 98\<rparr>)], doc_id = ''FORMDJVM'',
      dirm = Some ex_bundled_dirm, navm = False, pages = [Some 0],
      idToPageNumberMap = Some [(''p1'', 1)], loadedPageNumbers = None,
      lastRequestedPage = None, isOnePageDependenciesLoaded = False,
      heap = (\<lambda>_. empty_page)(0 := ex_page), next_ref = 1, fetchLog = []\<rparr>"

definition ex_pageDeps :: "nat \<Rightarrow> nat \<Rightarrow> string list" where
  "ex_pageDeps off sz = (if off = 48 then [''dict''] else [])"

definition ex_single_page :: page_obj where
  "ex_single_page = \<lparr>byteLength = 50, bsLength = 46, dependencies = [], decoded = False\<rparr>"

definition ex_single_view :: buffer_view where
  "ex_single_view =
     \<lparr>bv_byteLength = 50, bv_formatID = ''AT&T'', bv_id = ''FORMDJVU'', bv_dirm_id = [],
      bv_dirm = \<lparr>dflags = 0, isBundled = True, entries = []\<rparr>, bv_navm = False,
      bv_chunk_id = (\<lambda>_. []), bv_page = (\<lambda>_. ex_single_page),
      bv_djvi = (\<lambda>_. \<lparr>chunk_byteLength = 0\<rparr>)\<rparr>"

definition ex_single_built :: doc where
  "ex_single_built =
     \<lparr>baseUrl = None, memoryLimit = MEMORY_LIMIT, memoryUsage = None, djvi = [],
      doc_id = ''FORMDJVU'', dirm = None, navm = False, pages = [Some 0],
      idToPageNumberMap = None, loadedPageNumbers = None, lastRequestedPage = None,
      isOnePageDependenciesLoaded = False,
      heap = (\<lambda>_. empty_page)(0 := ex_single_page), next_ref = 1, fetchLog = []\<rparr>"

text \<open>A rounding of fragment texts that reads the text 1 as the number 1.\<close>

definition ex_roundNumber :: "string \<Rightarrow> int option" where
  "ex_roundNumber ref = (if ref = ''1'' then Some 1 else None)"

section \<open>Properties\<close>

subsection \<open>Decimal digits and the termination of the identifier loop\<close>

lemma digit_inj:
  assumes "a < 10" "b < 10" "''0123456789'' ! a = ''0123456789'' ! b"
  shows "a = b"
proof -
  have d: "distinct ''0123456789''" by simp
  have l: "length ''0123456789'' = 10" by simp
  from assms show ?thesis
    using nth_eq_iff_index_eq [OF d, of a b] l by simp
qed

lemma toString_nonempty: "toString n \<noteq> []"
  by (subst toString.simps) simp

lemma toString_inj: "toString n = toString m \<Longrightarrow> n = m"
proof (induction n arbitrary: m rule: toString.induct)
  case (1 n)
  show ?case
  proof (cases "n < 10")
    case True
    show ?thesis
    proof (cases "m < 10")
      case mlt: True
      from "1.prems" True mlt
      have "''0123456789'' ! n = ''0123456789'' ! m"
        by (simp add: toString.simps [of n] toString.simps [of m])
      with True mlt show ?thesis by (rule digit_inj)
    next
      case False
      with "1.prems" True show ?thesis
        using toString_nonempty [of "m div 10"]
        by (simp add: toString.simps [of n] toString.simps [of m])
    qed
  next
    case False
    show ?thesis
    proof (cases "m < 10")
      case True
      with "1.prems" False show ?thesis
        using toString_nonempty [of "n div 10"]
        by (simp add: toString.simps [of n] toString.simps [of m])
    next
      case mge: False
      from "1.prems" False mge
      have eq: "toString (n div 10) = toString (m div 10)"
        and dg: "''0123456789'' ! (n mod 10) = ''0123456789'' ! (m mod 10)"
        by (simp_all add: toString.simps [of n] toString.simps [of m])
      from "1.IH" [OF False eq] have q: "n div 10 = m div 10" .
      have "n mod 10 = m mod 10"
        by (rule digit_inj [OF _ _ dg]) simp_all
      with q show ?thesis
        by (metis div_mult_mod_eq)
    qed
  qed
qed

lemma length_filter_less:
  assumes "x \<in> set xs" "Q x" "\<not> P x" "\<And>y. P y \<Longrightarrow> Q y"
  shows "length (filter P xs) < length (filter Q xs)"
  using assms(1)
proof (induction xs)
  case Nil
  then show ?case by simp
next
  case (Cons a xs)
  have le: "length (filter P xs) \<le> length (filter Q xs)"
  proof (induction xs)
    case Nil
    show ?case by simp
  next
    case (Cons b ys)
    with assms(4) show ?case by auto
  qed
  show ?case
  proof (cases "x = a")
    case True
    with assms(2,3) le show ?thesis by simp
  next
    case False
    with Cons have "length (filter P xs) < length (filter Q xs)" by simp
    with assms(4) show ?thesis by auto
  qed
qed

termination unique_id
proof (relation "measure (\<lambda>(idset, base, newid, tmp).
          2 * length (filter (suffixed_from base tmp) idset)
          + (if newid \<in> set idset then 1 else 0))")
  show "wf (measure (\<lambda>(idset, base, newid, tmp).
          2 * length (filter (suffixed_from base tmp) idset)
          + (if newid \<in> set idset then 1 else 0)))"
    by simp
next
  fix idset :: "string option list" and base newid :: "string option" and tmp :: nat
  assume mem: "newid \<in> set idset"
  let ?v = "Some (js_str base @ toString tmp)"
  have mono: "\<And>y. suffixed_from base (Suc tmp) y \<Longrightarrow> suffixed_from base tmp y"
    unfolding suffixed_from_def using Suc_leD by blast
  have le: "length (filter (suffixed_from base (Suc tmp)) idset)
              \<le> length (filter (suffixed_from base tmp) idset)"
  proof (induction idset)
    case Nil
    show ?case by simp
  next
    case (Cons b ys)
    with mono show ?case by auto
  qed
  have "2 * length (filter (suffixed_from base (Suc tmp)) idset)
          + (if ?v \<in> set idset then 1 else 0)
        < 2 * length (filter (suffixed_from base tmp) idset) + 1"
  proof (cases "?v \<in> set idset")
    case True
    have q: "suffixed_from base tmp ?v"
      unfolding suffixed_from_def by (intro exI [of _ tmp]) simp
    have np: "\<not> suffixed_from base (Suc tmp) ?v"
      by (auto simp: suffixed_from_def dest: toString_inj)
    have "length (filter (suffixed_from base (Suc tmp)) idset)
            < length (filter (suffixed_from base tmp) idset)"
      using True q np mono
      by (rule length_filter_less
            [where P = "suffixed_from base (Suc tmp)" and Q = "suffixed_from base tmp"])
    with True show ?thesis by simp
  next
    case False
    with le show ?thesis by simp
  qed
  with mem
  show "((idset, base, Some (js_str base @ toString tmp), Suc tmp), idset, base, newid, tmp)
          \<in> measure (\<lambda>(idset, base, newid, tmp).
               2 * length (filter (suffixed_from base tmp) idset)
               + (if newid \<in> set idset then 1 else 0))"
    by simp
qed

declare unique_id.simps [simp del]

subsection \<open>Frame lemmas\<close>

lemma slot_out_of_range: "i < 0 \<or> i \<ge> int (length ps) \<Longrightarrow> slot ps i = None"
  by (auto simp: slot_def js_nth_def)

lemma static_eq_refl: "static_eq d d"
  by (simp add: static_eq_def)

lemma static_eq_trans: "static_eq a b \<Longrightarrow> static_eq b c \<Longrightarrow> static_eq a c"
  by (simp add: static_eq_def)

lemma load_one_frame:
  "load_one en pn i d = Inr d' \<Longrightarrow>
     static_eq d d' \<and> pages d' = pages d \<and> heap d' = heap d \<and> next_ref d' = next_ref d
     \<and> loadedPageNumbers d' = loadedPageNumbers d \<and> lastRequestedPage d' = lastRequestedPage d
     \<and> isOnePageDependenciesLoaded d' = isOnePageDependenciesLoaded d
     \<and> fetchLog d' = fetchLog d"
  by (auto simp: load_one_def Let_def add_usage_def static_eq_def
           split: fetch_result.splits if_splits)

lemma run_batch_frame:
  "run_batch en pn is d = (e, d') \<Longrightarrow>
     static_eq d d' \<and> pages d' = pages d \<and> heap d' = heap d \<and> next_ref d' = next_ref d
     \<and> loadedPageNumbers d' = loadedPageNumbers d \<and> lastRequestedPage d' = lastRequestedPage d
     \<and> isOnePageDependenciesLoaded d' = isOnePageDependenciesLoaded d
     \<and> fetchLog d' = fetchLog d"
proof (induction "is" arbitrary: d)
  case Nil
  then show ?case by (simp add: static_eq_refl)
next
  case (Cons i "is")
  show ?case
  proof (cases "load_one en pn i d")
    case (Inl a)
    with Cons.prems show ?thesis by (simp add: static_eq_refl)
  next
    case (Inr d1)
    note f1 = load_one_frame [OF Inr]
    from Cons.prems Inr have "run_batch en pn is d1 = (e, d')" by simp
    note f2 = Cons.IH [OF this]
    from f1 f2 show ?thesis by (auto intro: static_eq_trans)
  qed
qed

lemma loadDependencies_frame:
  assumes "loadDependencies en deps pn d = (e, d')"
  shows "static_eq d d' \<and> pages d' = pages d \<and> heap d' = heap d \<and> next_ref d' = next_ref d
     \<and> loadedPageNumbers d' = loadedPageNumbers d \<and> lastRequestedPage d' = lastRequestedPage d
     \<and> isOnePageDependenciesLoaded d' = isOnePageDependenciesLoaded d"
proof (cases "filter (\<lambda>i. map_of (djvi d) i = None) deps = []")
  case True
  with assms show ?thesis by (simp add: loadDependencies_def static_eq_refl)
next
  case False
  let ?u = "filter (\<lambda>i. map_of (djvi d) i = None) deps"
  let ?d1 = "d\<lparr>fetchLog := fetchLog d @ map (dependency_url en d) ?u\<rparr>"
  from assms False
  have "run_batch en pn (sort_key (completionTime en) ?u) ?d1 = (e, d')"
    by (simp add: loadDependencies_def Let_def)
  from run_batch_frame [OF this] show ?thesis
    by (simp add: static_eq_def)
qed

lemma evict_pages_frame:
  "evict_pages d = (e, d') \<Longrightarrow>
     static_eq d d' \<and> length (pages d') = length (pages d) \<and> heap d' = heap d
     \<and> next_ref d' = next_ref d \<and> lastRequestedPage d' = lastRequestedPage d
     \<and> isOnePageDependenciesLoaded d' = isOnePageDependenciesLoaded d
     \<and> fetchLog d' = fetchLog d \<and> djvi d' = djvi d"
proof (induction d rule: evict_pages.induct)
  case (1 d)
  show ?case
  proof (cases "usage_gt_limit d")
    case False
    with "1.prems" show ?thesis by (simp add: evict_pages.simps [of d] static_eq_refl)
  next
    case True
    show ?thesis
    proof (cases "loadedPageNumbers d")
      case None
      with True "1.prems" show ?thesis by (simp add: evict_pages.simps [of d] static_eq_refl)
    next
      case (Some l)
      show ?thesis
      proof (cases l)
        case Nil
        with Some True "1.prems" show ?thesis
          by (simp add: evict_pages.simps [of d] static_eq_refl)
      next
        case (Cons number rest)
        show ?thesis
        proof (cases "slot (pages d) (int number)")
          case None
          with Cons Some True "1.prems" show ?thesis
            by (auto simp add: evict_pages.simps [of d] static_eq_def)
        next
          case (Some p)
          let ?d1 = "(add_usage (- int (byteLength (heap d p)))
                       (d\<lparr>loadedPageNumbers := Some rest\<rparr>))
                     \<lparr>pages := (pages d)[number := None]\<rparr>"
          from Some Cons \<open>loadedPageNumbers d = Some l\<close> True "1.prems"
          have "evict_pages ?d1 = (e, d')"
            by (simp add: evict_pages.simps [of d])
          from "1.IH" [OF True \<open>loadedPageNumbers d = Some l\<close> Cons Some this]
          show ?thesis
            by (simp add: add_usage_def static_eq_def)
        qed
      qed
    qed
  qed
qed

lemma preserve_loop_frame:
  "preserve_loop old is new d = (e, new', d') \<Longrightarrow>
     static_eq d d' \<and> pages d' = pages d \<and> heap d' = heap d \<and> next_ref d' = next_ref d
     \<and> loadedPageNumbers d' = loadedPageNumbers d \<and> lastRequestedPage d' = lastRequestedPage d
     \<and> isOnePageDependenciesLoaded d' = isOnePageDependenciesLoaded d
     \<and> fetchLog d' = fetchLog d \<and> djvi d' = djvi d"
proof (induction "is" arbitrary: new d)
  case Nil
  then show ?case by (simp add: static_eq_refl)
next
  case (Cons i "is")
  show ?case
  proof (cases "map_of old i")
    case None
    with Cons.prems show ?thesis by (simp add: static_eq_refl)
  next
    case (Some c)
    with Cons.prems
    have "preserve_loop old is (AList.update i c new) (add_usage (int (chunk_byteLength c)) d)
            = (e, new', d')"
      by simp
    from Cons.IH [OF this] show ?thesis
      by (simp add: add_usage_def static_eq_def)
  qed
qed

lemma subtract_all_frame:
  "static_eq d (subtract_all kcs d) \<and> pages (subtract_all kcs d) = pages d
     \<and> heap (subtract_all kcs d) = heap d \<and> next_ref (subtract_all kcs d) = next_ref d
     \<and> loadedPageNumbers (subtract_all kcs d) = loadedPageNumbers d
     \<and> lastRequestedPage (subtract_all kcs d) = lastRequestedPage d
     \<and> isOnePageDependenciesLoaded (subtract_all kcs d) = isOnePageDependenciesLoaded d
     \<and> fetchLog (subtract_all kcs d) = fetchLog d \<and> djvi (subtract_all kcs d) = djvi d"
proof (induction kcs d rule: subtract_all.induct)
  case (1 d)
  show ?case by (simp add: static_eq_refl)
next
  case (2 k c kcs d)
  then show ?case by (simp add: add_usage_def static_eq_def)
qed

lemma release_dictionaries_frame:
  assumes "release_dictionaries ps d = (e, d')"
  shows "static_eq d d' \<and> pages d' = pages d \<and> next_ref d' = next_ref d
     \<and> loadedPageNumbers d' = loadedPageNumbers d
     \<and> isOnePageDependenciesLoaded d' = isOnePageDependenciesLoaded d
     \<and> fetchLog d' = fetchLog d \<and> lastRequestedPage d' = None
     \<and> heap d' = heap (resetLastRequestedPage d)"
proof -
  let ?d1 = "resetLastRequestedPage d"
  let ?ps = "case ps of None \<Rightarrow> [] | Some ps \<Rightarrow> ps"
  obtain e1 new d2 where pl: "preserve_loop (djvi ?d1) ?ps [] ?d1 = (e1, new, d2)"
    by (cases "preserve_loop (djvi ?d1) ?ps [] ?d1") auto
  note f = preserve_loop_frame [OF pl]
  have r: "static_eq d ?d1 \<and> pages ?d1 = pages d \<and> next_ref ?d1 = next_ref d
     \<and> loadedPageNumbers ?d1 = loadedPageNumbers d
     \<and> isOnePageDependenciesLoaded ?d1 = isOnePageDependenciesLoaded d
     \<and> fetchLog ?d1 = fetchLog d \<and> lastRequestedPage ?d1 = None"
    by (simp add: resetLastRequestedPage_def reset_page_def static_eq_def split: option.splits)
  show ?thesis
  proof (cases e1)
    case None
    with assms pl have "d' = (subtract_all (djvi d2) d2)\<lparr>djvi := new\<rparr>"
      by (simp add: release_dictionaries_def Let_def)
    with f r subtract_all_frame [of d2 "djvi d2"] show ?thesis
      by (simp add: static_eq_def)
  next
    case (Some a)
    with assms pl have "d' = d2"
      by (simp add: release_dictionaries_def Let_def)
    with f r show ?thesis by (simp add: static_eq_def)
  qed
qed

lemma resetLastRequestedPage_no_new_decode: "no_new_decode d (resetLastRequestedPage d)"
  by (simp add: no_new_decode_def resetLastRequestedPage_def reset_page_def split: option.splits)

lemma releaseMemoryIfRequired_frame:
  assumes "releaseMemoryIfRequired ps d = (e, d')"
  shows "static_eq d d' \<and> length (pages d') = length (pages d) \<and> next_ref d' = next_ref d
     \<and> isOnePageDependenciesLoaded d' = isOnePageDependenciesLoaded d
     \<and> fetchLog d' = fetchLog d \<and> no_new_decode d d'
     \<and> (\<forall>r. byteLength (heap d' r) = byteLength (heap d r)
            \<and> dependencies (heap d' r) = dependencies (heap d r))"
proof (cases "usage_le_limit d")
  case True
  with assms show ?thesis
    by (simp add: releaseMemoryIfRequired_def static_eq_refl no_new_decode_def)
next
  case False
  obtain e1 d1 where ev: "evict_pages d = (e1, d1)" by (cases "evict_pages d") auto
  note f = evict_pages_frame [OF ev]
  show ?thesis
  proof (cases "e1 = None \<and> usage_gt_limit d1 \<and> loadedPageNumbers d1 = Some []")
    case True
    with assms False ev have rd: "release_dictionaries ps d1 = (e, d')"
      by (simp add: releaseMemoryIfRequired_def)
    note g = release_dictionaries_frame [OF rd]
    have h: "heap d' = heap (resetLastRequestedPage d)"
      using g f by (simp add: resetLastRequestedPage_def reset_page_def split: option.splits)
    have "no_new_decode d d'"
      using resetLastRequestedPage_no_new_decode [of d] h by (simp add: no_new_decode_def)
    moreover have "\<forall>r. byteLength (heap d' r) = byteLength (heap d r)
            \<and> dependencies (heap d' r) = dependencies (heap d r)"
      using h by (simp add: resetLastRequestedPage_def reset_page_def split: option.splits)
    ultimately show ?thesis using f g by (simp add: static_eq_def)
  next
    case nt: False
    with assms False ev have "d' = d1"
      by (auto simp: releaseMemoryIfRequired_def split: option.splits if_splits)
    with f show ?thesis by (simp add: no_new_decode_def)
  qed
qed

subsection \<open>The first statements of getPage\<close>

lemma no_new_decode_refl: "no_new_decode d d"
  by (simp add: no_new_decode_def)

lemma no_new_decode_trans: "no_new_decode a b \<Longrightarrow> no_new_decode b c \<Longrightarrow> no_new_decode a c"
  by (simp add: no_new_decode_def)

lemma no_new_decode_heap_eq: "heap d' = heap d \<Longrightarrow> no_new_decode d d'"
  by (simp add: no_new_decode_def)

lemma install_page_heap: "heap (snd (install_page n r d)) = heap d"
  by (simp add: install_page_def Let_def split: option.splits)

lemma fetch_page_no_new_decode: "no_new_decode d (snd (fetch_page en n b d))"
proof -
  let ?url = "b @ pageName en n"
  let ?d1 = "d\<lparr>fetchLog := fetchLog d @ [?url]\<rparr>"
  have n1: "no_new_decode d ?d1" by (simp add: no_new_decode_def)
  show ?thesis
  proof (cases "fetch en ?url")
    case NetworkFailure
    then show ?thesis using n1 by (simp add: fetch_page_def Let_def)
  next
    case (Response ok body)
    show ?thesis
    proof (cases "ok \<and> p_magic body = ''AT&T''")
      case False
      with Response show ?thesis using n1 by (auto simp: fetch_page_def Let_def)
    next
      case True
      obtain r d2 where np: "new_page body ?d1 = (r, d2)" by (cases "new_page body ?d1") auto
      have n2: "no_new_decode d d2"
        using np by (auto simp: new_page_def no_new_decode_def split: if_splits)
      let ?d2' = "add_usage (int (p_byteLength body)) d2"
      obtain e3 d3 where ld: "loadDependencies en (dependencies (heap d2 r)) (Some n) ?d2' = (e3, d3)"
        by (cases "loadDependencies en (dependencies (heap d2 r)) (Some n) ?d2'") auto
      from loadDependencies_frame [OF ld] have h3: "heap d3 = heap d2"
        by (simp add: add_usage_def)
      with n2 have n3: "no_new_decode d d3" by (simp add: no_new_decode_def)
      show ?thesis
      proof (cases e3)
        case (Some e)
        with Response True np ld n3 show ?thesis by (simp add: fetch_page_def Let_def)
      next
        case None
        obtain e4 d4 where rl: "releaseMemoryIfRequired (Some (dependencies (heap d3 r))) d3 = (e4, d4)"
          by (cases "releaseMemoryIfRequired (Some (dependencies (heap d3 r))) d3") auto
        from releaseMemoryIfRequired_frame [OF rl] have "no_new_decode d3 d4" by simp
        with n3 have n4: "no_new_decode d d4" by (rule no_new_decode_trans)
        show ?thesis
        proof (cases e4)
          case (Some e)
          with None Response True np ld rl n4 show ?thesis by (simp add: fetch_page_def Let_def)
        next
          case e4: None
          have "no_new_decode d (snd (install_page n r d4))"
            using n4 install_page_heap [of n r d4] by (simp add: no_new_decode_def)
          with e4 None Response True np ld rl show ?thesis by (simp add: fetch_page_def Let_def)
        qed
      qed
    qed
  qed
qed

lemma release_previous_fields:
  "pages (release_previous n d) = pages d"
  "baseUrl (release_previous n d) = baseUrl d"
  "isBundled_doc (release_previous n d) = isBundled_doc d"
  "lastRequestedPage (release_previous n d) = slot (pages d) (n - 1)"
  "isOnePageDependenciesLoaded (release_previous n d) = isOnePageDependenciesLoaded d"
  "doc_id (release_previous n d) = doc_id d"
  "fetchLog (release_previous n d) = fetchLog d"
  "djvi (release_previous n d) = djvi d"
  "memoryUsage (release_previous n d) = memoryUsage d"
  "dependencies (heap (release_previous n d) r) = dependencies (heap d r)"
  by (simp_all add: release_previous_def reset_page_def isBundled_doc_def split: option.splits)

lemma getPage_unfold:
  "getPage en n d =
     (let d2 = release_previous n d in
      case slot (pages d) (n - 1) of
        None \<Rightarrow>
          if n < 1 \<or> n > int (length (pages d)) \<or> isBundled_doc d
          then (Inl (NoSuchPageDjVuError n), d2)
          else (case baseUrl d of
                  None \<Rightarrow> (Inl NoBaseUrlDjVuError, d2)
                | Some b \<Rightarrow> fetch_page en n b d2)
      | Some p \<Rightarrow>
          if \<not> isOnePageDependenciesLoaded d \<and> doc_id d = ''FORMDJVU'' then
            (if dependencies (heap d p) \<noteq> [] then
               (case loadDependencies en (dependencies (heap d p)) (Some 1) d2 of
                  (Some e, d3) \<Rightarrow> (Inl e, d3)
                | (None, d3) \<Rightarrow>
                    (Inr (lastRequestedPage d3), d3\<lparr>isOnePageDependenciesLoaded := True\<rparr>))
             else (Inr (Some p), d2\<lparr>isOnePageDependenciesLoaded := True\<rparr>))
          else (Inr (Some p), d2))"
  by (auto simp: getPage_def Let_def release_previous_def reset_page_def isBundled_doc_def
           split: option.splits)

subsection \<open>Accounting through the dependency batch\<close>

lemma update_absent: "k \<notin> fst ` set al \<Longrightarrow> AList.update k v al = al @ [(k, v)]"
  by (induction al) auto

lemma alist_bytes_update_absent:
  "k \<notin> fst ` set al \<Longrightarrow> alist_bytes (AList.update k c al) = alist_bytes al + int (chunk_byteLength c)"
  by (simp add: update_absent alist_bytes_def)

lemma map_of_None_iff: "map_of al k = None \<longleftrightarrow> k \<notin> fst ` set al"
  by (simp add: map_of_eq_None_iff)

lemma pages_bytes_cong:
  assumes "pages d' = pages d" "\<And>r. byteLength (heap d' r) = byteLength (heap d r)"
  shows "pages_bytes d' = pages_bytes d"
proof -
  have "slot_bytes d' = slot_bytes d"
    by (rule ext) (simp add: slot_bytes_def assms(2) split: option.splits)
  with assms(1) show ?thesis by (simp add: pages_bytes_def)
qed

lemma load_one_char:
  "load_one en pn i d =
     (if dep_ok en d i then Inr (install_dep en i d) else Inl (dep_error en pn d i))"
  by (auto simp: load_one_def Let_def dep_ok_def dep_size_def dep_error_def install_dep_def
           split: fetch_result.splits)

lemma load_one_accounted:
  assumes "load_one en pn i d = Inr d'" "map_of (djvi d) i = None" "accounted H x d"
  shows "accounted H x d' \<and> fst ` set (djvi d') = insert i (fst ` set (djvi d))"
proof -
  define sz where "sz = dep_size en d i"
  from assms(1) have
    d': "d' = add_usage (int sz) (d\<lparr>djvi := AList.update i \<lparr>chunk_byteLength = sz\<rparr> (djvi d)\<rparr>)"
    by (simp add: load_one_char install_dep_def sz_def split: if_splits)
  from assms(2) have ni: "i \<notin> fst ` set (djvi d)" by (simp add: map_of_None_iff)
  have pb: "pages_bytes d' = pages_bytes d"
    by (rule pages_bytes_cong) (simp_all add: d' add_usage_def)
  have db: "djvi_bytes d' = djvi_bytes d + int sz"
    using alist_bytes_update_absent [OF ni, of "\<lparr>chunk_byteLength = sz\<rparr>"]
    by (simp add: d' add_usage_def djvi_bytes_def)
  have ls: "loaded_slots d' = loaded_slots d"
    by (simp add: d' add_usage_def loaded_slots_def)
  have dk: "distinct (map fst (djvi d'))"
    using assms(3) by (simp add: d' add_usage_def accounted_def distinct_update)
  have keys: "fst ` set (djvi d') = insert i (fst ` set (djvi d))"
    by (simp add: d' add_usage_def dom_update)
  from assms(3) pb db ls dk have "accounted H x d'"
    by (simp add: accounted_def) (simp add: d' add_usage_def)
  with keys show ?thesis by simp
qed

lemma run_batch_accounted:
  assumes "run_batch en pn is d = (None, d')" "distinct is"
    "\<forall>i\<in>set is. map_of (djvi d) i = None" "accounted H x d"
  shows "accounted H x d' \<and> fst ` set (djvi d') = set is \<union> fst ` set (djvi d)"
  using assms
proof (induction "is" arbitrary: d)
  case Nil
  then show ?case by simp
next
  case (Cons i "is")
  from Cons.prems(1) obtain d1 where l1: "load_one en pn i d = Inr d1"
    and rb: "run_batch en pn is d1 = (None, d')"
    by (auto split: sum.splits)
  from Cons.prems(3) have "map_of (djvi d) i = None" by simp
  from load_one_accounted [OF l1 this Cons.prems(4)]
  have a1: "accounted H x d1" and k1: "fst ` set (djvi d1) = insert i (fst ` set (djvi d))"
    by simp_all
  have "\<forall>j\<in>set is. map_of (djvi d1) j = None"
    using Cons.prems(2,3) k1 by (auto simp: map_of_None_iff)
  from Cons.IH [OF rb _ this a1] Cons.prems(2) k1 show ?case by auto
qed

lemma loadDependencies_accounted:
  assumes "loadDependencies en deps pn d = (None, d')" "distinct deps" "accounted H x d"
  shows "accounted H x d' \<and> set deps \<subseteq> fst ` set (djvi d')
         \<and> fst ` set (djvi d) \<subseteq> fst ` set (djvi d')"
proof (cases "filter (\<lambda>i. map_of (djvi d) i = None) deps = []")
  case True
  then have "\<forall>i\<in>set deps. map_of (djvi d) i \<noteq> None"
    by (simp add: filter_empty_conv)
  then have "set deps \<subseteq> fst ` set (djvi d)"
    by (auto simp: map_of_None_iff)
  with assms True show ?thesis by (simp add: loadDependencies_def)
next
  case False
  let ?u = "filter (\<lambda>i. map_of (djvi d) i = None) deps"
  let ?d1 = "d\<lparr>fetchLog := fetchLog d @ map (dependency_url en d) ?u\<rparr>"
  from assms(1) False
  have rb: "run_batch en pn (sort_key (completionTime en) ?u) ?d1 = (None, d')"
    by (simp add: loadDependencies_def Let_def)
  have "pages_bytes ?d1 = pages_bytes d"
    by (rule pages_bytes_cong) simp_all
  then have a1: "accounted H x ?d1"
    using assms(3)
    by (simp add: accounted_def djvi_bytes_def loaded_slots_def)
  have ds: "distinct (sort_key (completionTime en) ?u)" using assms(2) by simp
  have un: "\<forall>i\<in>set (sort_key (completionTime en) ?u). map_of (djvi ?d1) i = None" by simp
  from run_batch_accounted [OF rb ds un a1]
  have a: "accounted H x d'" and k: "fst ` set (djvi d') = set ?u \<union> fst ` set (djvi d)"
    by simp_all
  have "set deps \<subseteq> fst ` set (djvi d')"
  proof
    fix i assume "i \<in> set deps"
    then show "i \<in> fst ` set (djvi d')"
      unfolding k by (cases "map_of (djvi d) i = None") (auto simp: map_of_None_iff)
  qed
  with a k show ?thesis by auto
qed

subsection \<open>Accounting through the memory governor\<close>

lemma sum_list_map_update:
  fixes f :: "'a \<Rightarrow> int"
  shows "i < length ps \<Longrightarrow> sum_list (map f (ps[i := v])) = sum_list (map f ps) - f (ps ! i) + f v"
  by (induction ps arbitrary: i) (auto split: nat.splits)

lemma slot_Some_iff: "slot ps (int i) = Some r \<longleftrightarrow> i < length ps \<and> ps ! i = Some r"
  by (auto simp: slot_def js_nth_def split: option.splits)

lemma slot_None_iff: "slot ps (int i) = None \<longleftrightarrow> (i < length ps \<longrightarrow> ps ! i = None)"
  by (auto simp: slot_def js_nth_def split: option.splits)

lemma evict_step_accounted:
  assumes a: "accounted H x d" and l: "loadedPageNumbers d = Some (number # rest)"
    and s: "slot (pages d) (int number) = Some p"
  defines "d1 \<equiv> (add_usage (- int (byteLength (heap d p))) (d\<lparr>loadedPageNumbers := Some rest\<rparr>))
                   \<lparr>pages := (pages d)[number := None]\<rparr>"
  shows "accounted H x d1"
proof -
  from s have nl: "number < length (pages d)" and pn: "pages d ! number = Some p"
    by (simp_all add: slot_Some_iff)
  have sb: "slot_bytes d1 = slot_bytes d"
    by (rule ext) (simp add: slot_bytes_def d1_def add_usage_def split: option.splits)
  have pb: "pages_bytes d1 = pages_bytes d - int (byteLength (heap d p))"
    using sum_list_map_update [OF nl, of "slot_bytes d" None] pn
    by (simp add: pages_bytes_def sb) (simp add: d1_def add_usage_def slot_bytes_def)
  have db: "djvi_bytes d1 = djvi_bytes d" by (simp add: djvi_bytes_def d1_def add_usage_def)
  from a l have dl: "distinct (number # rest)" and sl: "set (number # rest) = loaded_slots d"
    by (auto simp: accounted_def)
  have ls: "loaded_slots d1 = loaded_slots d - {number}"
    using nl by (auto simp: loaded_slots_def d1_def add_usage_def nth_list_update split: if_splits)
  have sr: "set rest = loaded_slots d1"
    using dl sl ls by auto
  have mu: "memoryUsage d1 = Some (H + x + pages_bytes d1 + djvi_bytes d1)"
    using a pb db by (simp add: accounted_def) (simp add: d1_def add_usage_def)
  have rf: "\<forall>i r. i < length (pages d1) \<and> pages d1 ! i = Some r \<longrightarrow> r < next_ref d1"
  proof (intro allI impI)
    fix i r assume h: "i < length (pages d1) \<and> pages d1 ! i = Some r"
    then have "i < length (pages d)" "pages d ! i = Some r"
      using nl by (auto simp: d1_def add_usage_def nth_list_update split: if_splits)
    with a have "r < next_ref d" by (auto simp: accounted_def)
    then show "r < next_ref d1" by (simp add: d1_def add_usage_def)
  qed
  have dk: "distinct (map fst (djvi d1))"
    using a by (simp add: accounted_def d1_def add_usage_def)
  have "loadedPageNumbers d1 = Some rest" by (simp add: d1_def add_usage_def)
  with mu sr dl rf dk show ?thesis by (simp add: accounted_def)
qed

lemma evict_pages_accounted:
  "evict_pages d = (None, d') \<Longrightarrow> accounted H x d \<Longrightarrow>
     accounted H x d' \<and> (\<forall>i. slot (pages d) i = None \<longrightarrow> slot (pages d') i = None)"
proof (induction d rule: evict_pages.induct)
  case (1 d)
  show ?case
  proof (cases "usage_gt_limit d")
    case False
    with "1.prems" show ?thesis by (simp add: evict_pages.simps [of d])
  next
    case True
    from "1.prems"(2) obtain l where l: "loadedPageNumbers d = Some l"
      by (auto simp: accounted_def)
    show ?thesis
    proof (cases l)
      case Nil
      with l True "1.prems" show ?thesis by (simp add: evict_pages.simps [of d])
    next
      case (Cons number rest)
      show ?thesis
      proof (cases "slot (pages d) (int number)")
        case None
        with Cons l True "1.prems"(1) show ?thesis by (simp add: evict_pages.simps [of d])
      next
        case (Some p)
        let ?d1 = "(add_usage (- int (byteLength (heap d p)))
                     (d\<lparr>loadedPageNumbers := Some rest\<rparr>))
                   \<lparr>pages := (pages d)[number := None]\<rparr>"
        from Some Cons l True "1.prems"(1)
        have ev: "evict_pages ?d1 = (None, d')"
          by (simp add: evict_pages.simps [of d])
        from l Cons have l': "loadedPageNumbers d = Some (number # rest)" by simp
        have a1: "accounted H x ?d1"
          by (rule evict_step_accounted [OF "1.prems"(2) l' Some])
        from "1.IH" [OF True l Cons Some ev a1]
        have a': "accounted H x d'"
          and k: "\<forall>i. slot (pages ?d1) i = None \<longrightarrow> slot (pages d') i = None"
          by simp_all
        from Some have nl: "number < length (pages d)" by (simp add: slot_Some_iff)
        have "\<forall>i. slot (pages d) i = None \<longrightarrow> slot (pages ?d1) i = None"
          using nl
          by (auto simp: slot_def js_nth_def nth_list_update add_usage_def
                   split: option.splits if_splits)
        with k a' show ?thesis by blast
      qed
    qed
  qed
qed

lemma restrict_to_Cons:
  "map_of old i = Some c \<Longrightarrow> restrict_to (i # is) old = (i, c) # restrict_to is old"
  by (simp add: restrict_to_def map_filter_simps)

lemma preserve_loop_char:
  "preserve_loop old is new d = (None, new', d') \<Longrightarrow> distinct is \<Longrightarrow>
   set is \<inter> fst ` set new = {} \<Longrightarrow>
     new' = new @ restrict_to is old
     \<and> set is \<subseteq> fst ` set old
     \<and> map fst (restrict_to is old) = is
     \<and> memoryUsage d' = map_option (\<lambda>m. m + alist_bytes (restrict_to is old)) (memoryUsage d)"
proof (induction "is" arbitrary: new d)
  case Nil
  then show ?case
    by (simp add: alist_bytes_def option.map_ident restrict_to_def map_filter_simps)
next
  case (Cons i "is")
  from Cons.prems(1) obtain c where c: "map_of old i = Some c"
    and pl: "preserve_loop old is (AList.update i c new) (add_usage (int (chunk_byteLength c)) d)
               = (None, new', d')"
    by (auto split: option.splits)
  from Cons.prems(3) have ni: "i \<notin> fst ` set new" by auto
  then have up: "AList.update i c new = new @ [(i, c)]" by (rule update_absent)
  have dj: "set is \<inter> fst ` set (AList.update i c new) = {}"
    using Cons.prems(2,3) by (auto simp: up)
  from Cons.prems(2) have "distinct is" by simp
  from c have "i \<in> fst ` set old"
    by (metis map_of_eq_None_iff option.distinct(1))
  with Cons.IH [OF pl \<open>distinct is\<close> dj] c up
  show ?case
    by (auto simp: alist_bytes_def add_usage_def option.map_comp comp_def restrict_to_Cons
                   algebra_simps
             intro!: arg_cong [where f = "\<lambda>g. map_option g (memoryUsage d)"])
qed

lemma subtract_all_usage:
  "memoryUsage (subtract_all kcs d) = map_option (\<lambda>m. m - alist_bytes kcs) (memoryUsage d)"
proof (induction kcs d rule: subtract_all.induct)
  case (1 d)
  show ?case by (simp add: alist_bytes_def option.map_ident)
next
  case (2 k c kcs d)
  then show ?case
    by (simp add: alist_bytes_def add_usage_def option.map_comp comp_def algebra_simps)
qed

lemma release_dictionaries_char:
  assumes "release_dictionaries ps d = (None, d')" "distinct (preserved_list ps)"
  shows "djvi d' = restrict_to (preserved_list ps) (djvi d)
         \<and> set (preserved_list ps) \<subseteq> fst ` set (djvi d)
         \<and> map fst (restrict_to (preserved_list ps) (djvi d)) = preserved_list ps
         \<and> memoryUsage d' =
             map_option (\<lambda>m. m + alist_bytes (restrict_to (preserved_list ps) (djvi d))
                                - alist_bytes (djvi d)) (memoryUsage d)"
proof -
  let ?d1 = "resetLastRequestedPage d"
  have dj: "djvi ?d1 = djvi d" and mu1: "memoryUsage ?d1 = memoryUsage d"
    by (simp_all add: resetLastRequestedPage_def reset_page_def split: option.splits)
  obtain e1 new d2 where pl: "preserve_loop (djvi d) (preserved_list ps) [] ?d1 = (e1, new, d2)"
    by (cases "preserve_loop (djvi d) (preserved_list ps) [] ?d1") auto
  from assms(1) pl have e1: "e1 = None" and d': "d' = (subtract_all (djvi d2) d2)\<lparr>djvi := new\<rparr>"
    by (auto simp: release_dictionaries_def Let_def dj preserved_list_def split: option.splits)
  from pl e1 have pl': "preserve_loop (djvi d) (preserved_list ps) [] ?d1 = (None, new, d2)"
    by simp
  from preserve_loop_char [OF pl' assms(2)]
  have new: "new = restrict_to (preserved_list ps) (djvi d)"
    and sub: "set (preserved_list ps) \<subseteq> fst ` set (djvi d)"
    and mf: "map fst (restrict_to (preserved_list ps) (djvi d)) = preserved_list ps"
    and m2: "memoryUsage d2 = map_option (\<lambda>m. m + alist_bytes (restrict_to (preserved_list ps) (djvi d)))
                                (memoryUsage d)"
    by (simp_all add: mu1)
  from preserve_loop_frame [OF pl'] have dj2: "djvi d2 = djvi d" by (simp add: dj)
  have "memoryUsage d' = map_option (\<lambda>m. m - alist_bytes (djvi d)) (memoryUsage d2)"
    by (simp add: d' subtract_all_usage dj2)
  with m2 have "memoryUsage d' =
             map_option (\<lambda>m. m + alist_bytes (restrict_to (preserved_list ps) (djvi d))
                                - alist_bytes (djvi d)) (memoryUsage d)"
    by (simp add: option.map_comp comp_def)
  with new sub mf d' show ?thesis by simp
qed

lemma release_dictionaries_accounted:
  assumes r: "release_dictionaries ps d = (None, d')" and dp: "distinct (preserved_list ps)"
    and a: "accounted H x d"
  shows "accounted H x d' \<and> map fst (djvi d') = preserved_list ps
         \<and> pages d' = pages d"
proof -
  note c = release_dictionaries_char [OF r dp]
  note f = release_dictionaries_frame [OF r]
  have keys: "map fst (djvi d') = preserved_list ps"
    using c by simp
  have hb: "\<And>r. byteLength (heap d' r) = byteLength (heap d r)"
    using f by (simp add: resetLastRequestedPage_def reset_page_def split: option.splits)
  have pb: "pages_bytes d' = pages_bytes d"
    by (rule pages_bytes_cong) (use f hb in simp_all)
  have db: "djvi_bytes d' = alist_bytes (restrict_to (preserved_list ps) (djvi d))"
    using c by (simp add: djvi_bytes_def)
  have mu: "memoryUsage d' = Some (H + x + pages_bytes d' + djvi_bytes d')"
    using c a pb db by (simp add: accounted_def djvi_bytes_def)
  have ls: "loaded_slots d' = loaded_slots d" using f by (simp add: loaded_slots_def)
  from a f ls mu keys dp show ?thesis
    by (simp add: accounted_def)
qed

lemma releaseMemoryIfRequired_accounted:
  assumes r: "releaseMemoryIfRequired ps d = (None, d')" and dp: "distinct (preserved_list ps)"
    and a: "accounted H x d"
  shows "accounted H x d' \<and> (\<forall>i. slot (pages d) i = None \<longrightarrow> slot (pages d') i = None)
         \<and> (djvi d' = djvi d \<or> map fst (djvi d') = preserved_list ps)"
proof (cases "usage_le_limit d")
  case True
  with r a show ?thesis by (simp add: releaseMemoryIfRequired_def)
next
  case False
  obtain e1 d1 where ev: "evict_pages d = (e1, d1)" by (cases "evict_pages d") auto
  with r False have e1: "e1 = None"
    by (auto simp: releaseMemoryIfRequired_def split: option.splits)
  note ea = evict_pages_accounted [OF ev [unfolded e1] a]
  note ef = evict_pages_frame [OF ev]
  show ?thesis
  proof (cases "usage_gt_limit d1 \<and> loadedPageNumbers d1 = Some []")
    case True
    with r False ev e1 have rd: "release_dictionaries ps d1 = (None, d')"
      by (simp add: releaseMemoryIfRequired_def)
    from release_dictionaries_accounted [OF rd dp conjunct1 [OF ea]] ea show ?thesis by simp
  next
    case nt: False
    with r False ev e1 have "d' = d1"
      by (auto simp: releaseMemoryIfRequired_def split: if_splits)
    with ea ef show ?thesis by simp
  qed
qed

subsection \<open>Accounting through getPage and the constructor\<close>

lemma pages_bytes_cong_refs:
  assumes "pages d' = pages d"
    "\<And>r. Some r \<in> set (pages d) \<Longrightarrow> byteLength (heap d' r) = byteLength (heap d r)"
  shows "pages_bytes d' = pages_bytes d"
proof -
  have "map (slot_bytes d') (pages d) = map (slot_bytes d) (pages d)"
    by (rule map_cong [OF refl]) (auto simp: slot_bytes_def assms(2) split: option.splits)
  then show ?thesis by (simp only: pages_bytes_def assms(1))
qed

lemma accounted_release_previous:
  assumes "accounted H x d"
  shows "accounted H x (release_previous n d)"
proof -
  let ?d = "release_previous n d"
  have pb: "pages_bytes ?d = pages_bytes d"
    by (rule pages_bytes_cong)
       (simp_all add: release_previous_def reset_page_def split: option.splits)
  have f: "memoryUsage ?d = memoryUsage d" "djvi ?d = djvi d" "pages ?d = pages d"
    "loadedPageNumbers ?d = loadedPageNumbers d" "next_ref ?d = next_ref d"
    by (simp_all add: release_previous_def reset_page_def split: option.splits)
  from assms pb f show ?thesis
    by (simp add: accounted_def djvi_bytes_def loaded_slots_def)
qed

lemma fetch_page_accounted:
  assumes a: "accounted H 0 d" and s: "slot (pages d) (n - 1) = None"
    and n: "1 \<le> n" "n \<le> int (length (pages d))"
    and ds: "dependency_sets en"
    and fp: "fetch_page en n b d = (Inr r, d')"
  shows "accounted H 0 d' \<and> doc_id d' = doc_id d"
proof -
  let ?url = "b @ pageName en n"
  let ?d1 = "d\<lparr>fetchLog := fetchLog d @ [?url]\<rparr>"
  from fp obtain body where resp: "fetch en ?url = Response True body"
    and magic: "p_magic body = ''AT&T''"
    by (auto simp: fetch_page_def Let_def split: fetch_result.splits if_splits)
  from ds resp have dd: "distinct (p_dependencies body)"
    by (auto simp: dependency_sets_def)
  define rf where "rf = next_ref d"
  define d2 where "d2 = add_usage (int (p_byteLength body)) (snd (new_page body ?d1))"
  have np: "new_page body ?d1 = (rf, snd (new_page body ?d1))"
    by (simp add: new_page_def rf_def)
  have hrf: "heap d2 rf = \<lparr>byteLength = p_byteLength body, bsLength = p_bsLength body,
                dependencies = p_dependencies body, decoded = False\<rparr>"
    by (simp add: d2_def new_page_def add_usage_def rf_def)
  have d2f: "pages d2 = pages d" "djvi d2 = djvi d" "loadedPageNumbers d2 = loadedPageNumbers d"
    "next_ref d2 = Suc rf" "doc_id d2 = doc_id d"
    "memoryUsage d2 = map_option (\<lambda>m. m + int (p_byteLength body)) (memoryUsage d)"
    by (simp_all add: d2_def new_page_def add_usage_def rf_def)
  have pb2: "pages_bytes d2 = pages_bytes d"
  proof (rule pages_bytes_cong_refs)
    show "pages d2 = pages d" by (rule d2f)
  next
    fix q assume "Some q \<in> set (pages d)"
    then obtain i where "i < length (pages d)" "pages d ! i = Some q"
      by (auto simp: in_set_conv_nth)
    with a have "q < next_ref d" by (auto simp: accounted_def)
    then show "byteLength (heap d2 q) = byteLength (heap d q)"
      by (simp add: d2_def new_page_def add_usage_def)
  qed
  have a2: "accounted H (int (p_byteLength body)) d2"
    using a pb2 d2f
    by (auto simp: accounted_def djvi_bytes_def loaded_slots_def less_Suc_eq rf_def)
  have fpu: "fetch_page en n b d =
      (case loadDependencies en (p_dependencies body) (Some n) d2 of
         (Some e, d3) \<Rightarrow> (Inl e, d3)
       | (None, d3) \<Rightarrow>
           (case releaseMemoryIfRequired (Some (dependencies (heap d3 rf))) d3 of
              (Some e, d4) \<Rightarrow> (Inl e, d4)
            | (None, d4) \<Rightarrow> install_page n rf d4))"
    using resp magic unfolding rf_def d2_def
    by (simp add: fetch_page_def Let_def new_page_def)
  obtain e3 d3 where ld0: "loadDependencies en (p_dependencies body) (Some n) d2 = (e3, d3)"
    by (cases "loadDependencies en (p_dependencies body) (Some n) d2") auto
  from fp fpu ld0 have e3: "e3 = None" by (cases e3) auto
  from ld0 e3 have ld: "loadDependencies en (p_dependencies body) (Some n) d2 = (None, d3)"
    by simp
  note f3 = loadDependencies_frame [OF ld]
  from loadDependencies_accounted [OF ld dd a2] have a3: "accounted H (int (p_byteLength body)) d3"
    by simp
  from f3 hrf have dep3: "dependencies (heap d3 rf) = p_dependencies body" by simp
  obtain e4 d4 where rl0: "releaseMemoryIfRequired (Some (p_dependencies body)) d3 = (e4, d4)"
    by (cases "releaseMemoryIfRequired (Some (p_dependencies body)) d3") auto
  from fp fpu ld dep3 rl0 have e4: "e4 = None" by (cases e4) auto
  from rl0 e4 have rl: "releaseMemoryIfRequired (Some (p_dependencies body)) d3 = (None, d4)"
    by simp
  from fp fpu ld dep3 rl have ip: "install_page n rf d4 = (Inr r, d')" by simp
  have dp: "distinct (preserved_list (Some (p_dependencies body)))"
    using dd by (simp add: preserved_list_def)
  from releaseMemoryIfRequired_accounted [OF rl dp a3]
  have a4: "accounted H (int (p_byteLength body)) d4"
    and s4: "\<forall>i. slot (pages d3) i = None \<longrightarrow> slot (pages d4) i = None"
    by simp_all
  note f4 = releaseMemoryIfRequired_frame [OF rl]
  from s f3 d2f s4 have sn: "slot (pages d4) (n - 1) = None" by simp
  from f4 f3 d2f have len4: "length (pages d4) = length (pages d)" by simp
  from f4 f3 hrf have b4: "byteLength (heap d4 rf) = p_byteLength body" by simp
  from f4 f3 d2f have nr4: "next_ref d4 = Suc rf" by simp
  from a4 obtain l where l4: "loadedPageNumbers d4 = Some l" and dl: "distinct l"
    and sl: "set l = loaded_slots d4"
    by (auto simp: accounted_def)
  define k where "k = nat (n - 1)"
  from n len4 have kl: "k < length (pages d4)" and kn: "int k = n - 1" by (simp_all add: k_def)
  from sn kn kl have pk: "pages d4 ! k = None"
    by (metis slot_None_iff)
  from ip l4 have d': "d' = d4\<lparr>pages := (pages d4)[k := Some rf],
                              loadedPageNumbers := Some (l @ [k]), lastRequestedPage := Some rf\<rparr>"
    by (auto simp: install_page_def Let_def k_def)
  have sb: "slot_bytes d' = slot_bytes d4"
    by (rule ext) (simp add: slot_bytes_def d' split: option.splits)
  have pb': "pages_bytes d' = pages_bytes d4 + int (p_byteLength body)"
    using sum_list_map_update [OF kl, of "slot_bytes d4" "Some rf"] pk b4
    by (simp add: pages_bytes_def sb) (simp add: d' slot_bytes_def)
  have db': "djvi_bytes d' = djvi_bytes d4" by (simp add: djvi_bytes_def d')
  have ls': "loaded_slots d' = insert k (loaded_slots d4)"
    using kl by (auto simp: loaded_slots_def d' nth_list_update split: if_splits)
  have knl: "k \<notin> set l" using sl pk by (simp add: loaded_slots_def)
  have mu: "memoryUsage d' = Some (H + 0 + pages_bytes d' + djvi_bytes d')"
    using a4 pb' db' by (simp add: accounted_def) (simp add: d')
  have rf': "\<forall>i q. i < length (pages d') \<and> pages d' ! i = Some q \<longrightarrow> q < next_ref d'"
  proof (intro allI impI)
    fix i q assume h: "i < length (pages d') \<and> pages d' ! i = Some q"
    show "q < next_ref d'"
    proof (cases "i = k")
      case True
      with h kl have "q = rf" by (simp add: d')
      with nr4 show ?thesis by (simp add: d')
    next
      case False
      with h have "i < length (pages d4)" "pages d4 ! i = Some q" by (simp_all add: d')
      with a4 have "q < next_ref d4" by (auto simp: accounted_def)
      then show ?thesis by (simp add: d')
    qed
  qed
  have dk: "distinct (map fst (djvi d'))" using a4 by (simp add: accounted_def d')
  have lp: "loadedPageNumbers d' = Some (l @ [k])" by (simp add: d')
  have "accounted H 0 d'"
    unfolding accounted_def using mu lp dl knl sl ls' rf' dk by auto
  moreover have "doc_id d' = doc_id d"
    using f4 f3 d2f by (simp add: d' static_eq_def)
  ultimately show ?thesis by simp
qed

lemma getPage_accounted:
  assumes a: "accounted H 0 d" and id: "doc_id d \<noteq> ''FORMDJVU''"
    and ds: "dependency_sets en" and gp: "getPage en n d = (Inr r, d')"
  shows "accounted H 0 d' \<and> doc_id d' = doc_id d"
proof (cases "slot (pages d) (n - 1)")
  case (Some p)
  with gp id have "d' = release_previous n d"
    by (simp add: getPage_unfold Let_def)
  with a show ?thesis
    by (simp add: accounted_release_previous release_previous_fields)
next
  case None
  with gp obtain b where n: "1 \<le> n" "n \<le> int (length (pages d))"
    and fp: "fetch_page en n b (release_previous n d) = (Inr r, d')"
    by (auto simp: getPage_unfold Let_def split: if_splits option.splits)
  have a2: "accounted H 0 (release_previous n d)" using a by (rule accounted_release_previous)
  from fetch_page_accounted [OF a2 _ _ _ ds fp] None n show ?thesis
    by (simp add: release_previous_fields)
qed

lemma successful_loads_accounted:
  assumes "successful_loads d0 d" "accounted H 0 d0" "doc_id d0 \<noteq> ''FORMDJVU''"
  shows "accounted H 0 d \<and> doc_id d = doc_id d0"
  using assms
proof (induction rule: successful_loads.induct)
  case no_load
  then show ?case by simp
next
  case (load d en n r d')
  then have "accounted H 0 d" "doc_id d \<noteq> ''FORMDJVU''" by simp_all
  from getPage_accounted [OF this load.hyps(2,3)] load show ?case by simp
next
  case (new_limit d limit)
  then have a: "accounted H 0 d" and i: "doc_id d = doc_id d0" by simp_all
  have "pages_bytes (setMemoryLimit limit d) = pages_bytes d"
    by (rule pages_bytes_cong) (simp_all add: setMemoryLimit_def)
  with a i show ?case
    by (simp add: accounted_def djvi_bytes_def loaded_slots_def setMemoryLimit_def)
qed

lemma parseComponents_fields:
  "memoryUsage (parseComponents bv es d) = memoryUsage d
   \<and> dirm (parseComponents bv es d) = dirm d
   \<and> baseUrl (parseComponents bv es d) = baseUrl d"
  by (induction bv es d rule: parseComponents.induct)
     (auto simp: Let_def alloc_page_def split: prod.splits)

lemma indirect_document_accounted:
  assumes "DjVuDocument resolve bv b limit = Inr d0" "\<not> isBundled_doc d0"
  shows "accounted (int (bv_byteLength bv)) 0 d0 \<and> doc_id d0 \<noteq> ''FORMDJVU''"
proof -
  from assms have id: "bv_id bv = ''FORMDJVM''"
    by (auto simp: DjVuDocument_def Let_def isBundled_doc_def alloc_page_def blank_doc_def
             split: if_splits)
  with assms(1) have im: "initMultiPageDocument bv
        ((blank_doc (init_baseUrl resolve b) limit)\<lparr>doc_id := bv_id bv\<rparr>) = Inr d0"
    by (simp add: DjVuDocument_def Let_def split: if_splits)
  have nb: "\<not> isBundled (bv_dirm bv)"
  proof
    assume "isBundled (bv_dirm bv)"
    with im have "dirm d0 = Some (bv_dirm bv)"
      by (auto simp: initMultiPageDocument_def Let_def parseComponents_fields split: if_splits)
    with \<open>isBundled (bv_dirm bv)\<close> assms(2) show False by (simp add: isBundled_doc_def)
  qed
  with im have d0: "d0 = (blank_doc (init_baseUrl resolve b) limit)
      \<lparr>doc_id := bv_id bv, dirm := Some (bv_dirm bv), navm := bv_navm bv, pages := [],
        idToPageNumberMap := Some [],
        pages := replicate (dirm_getPagesQuantity (bv_dirm bv)) None,
        memoryUsage := Some (int (bv_byteLength bv)), loadedPageNumbers := Some []\<rparr>"
    by (auto simp: initMultiPageDocument_def Let_def split: if_splits)
  have pb: "pages_bytes d0 = 0"
    by (simp add: d0 pages_bytes_def slot_bytes_def blank_doc_def sum_list_replicate)
  have "accounted (int (bv_byteLength bv)) 0 d0"
    using pb by (simp add: accounted_def) (simp add: d0 djvi_bytes_def alist_bytes_def loaded_slots_def blank_doc_def)
  with id d0 show ?thesis by simp
qed

lemma init_baseUrl_None: "init_baseUrl resolve None = None"
  by (simp add: init_baseUrl_def)

lemma DjVuDocument_baseUrl:
  assumes "DjVuDocument resolve bv b limit = Inr d"
  shows "baseUrl d = init_baseUrl resolve b"
  using assms
  by (auto simp: DjVuDocument_def initMultiPageDocument_def Let_def blank_doc_def
        alloc_page_def parseComponents_fields split: if_splits)

subsection \<open>Errors and decode state\<close>

lemma run_batch_error: "run_batch en pn is d = (Some e, d') \<Longrightarrow> transport_error e"
proof (induction "is" arbitrary: d)
  case Nil
  then show ?case by simp
next
  case (Cons i "is")
  then show ?case
    by (auto simp: load_one_char dep_error_def transport_error_def
             split: if_splits fetch_result.splits)
qed

lemma loadDependencies_error:
  "loadDependencies en deps pn d = (Some e, d') \<Longrightarrow> transport_error e"
  by (auto simp: loadDependencies_def Let_def split: if_splits dest: run_batch_error)

lemma evict_pages_error: "evict_pages d = (Some e, d') \<Longrightarrow> e = TypeError"
proof (induction d rule: evict_pages.induct)
  case (1 d)
  show ?case
  proof (cases "usage_gt_limit d")
    case False
    with "1.prems" show ?thesis by (simp add: evict_pages.simps [of d])
  next
    case True
    show ?thesis
    proof (cases "loadedPageNumbers d")
      case None
      with True "1.prems" show ?thesis by (simp add: evict_pages.simps [of d])
    next
      case (Some l)
      show ?thesis
      proof (cases l)
        case Nil
        with Some True "1.prems" show ?thesis by (simp add: evict_pages.simps [of d])
      next
        case (Cons number rest)
        show ?thesis
        proof (cases "slot (pages d) (int number)")
          case None
          with Cons Some True "1.prems" show ?thesis by (simp add: evict_pages.simps [of d])
        next
          case sp: (Some p)
          with Cons Some True "1.prems" "1.IH" [OF True Some Cons sp] show ?thesis
            by (simp add: evict_pages.simps [of d])
        qed
      qed
    qed
  qed
qed

lemma preserve_loop_error: "preserve_loop old is new d = (Some e, new', d') \<Longrightarrow> e = TypeError"
  by (induction "is" arbitrary: new d) (auto split: option.splits)

lemma release_dictionaries_error:
  "release_dictionaries ps d = (Some e, d') \<Longrightarrow> e = TypeError"
  by (auto simp: release_dictionaries_def Let_def split: prod.splits option.splits
           dest: preserve_loop_error)

lemma releaseMemoryIfRequired_error:
  assumes "releaseMemoryIfRequired ps d = (Some e, d')"
  shows "e = TypeError"
proof -
  obtain e1 d1 where ev: "evict_pages d = (e1, d1)" by (cases "evict_pages d") auto
  show ?thesis
  proof (cases e1)
    case None
    with assms ev show ?thesis
      by (auto simp: releaseMemoryIfRequired_def split: if_splits
               dest: release_dictionaries_error)
  next
    case (Some e')
    with assms ev evict_pages_error [of d e' d1] show ?thesis
      by (auto simp: releaseMemoryIfRequired_def split: if_splits)
  qed
qed

lemma fetch_page_error:
  assumes "fst (fetch_page en n b d) = Inl e"
  shows "transport_error e"
proof -
  let ?url = "b @ pageName en n"
  let ?d1 = "d\<lparr>fetchLog := fetchLog d @ [?url]\<rparr>"
  show ?thesis
  proof (cases "fetch en ?url")
    case NetworkFailure
    with assms show ?thesis by (auto simp: fetch_page_def Let_def transport_error_def)
  next
    case (Response ok body)
    show ?thesis
    proof (cases "ok \<and> p_magic body = ''AT&T''")
      case False
      with Response assms show ?thesis
        by (auto simp: fetch_page_def Let_def transport_error_def split: if_splits)
    next
      case True
      obtain r d2 where np: "new_page body ?d1 = (r, d2)" by (cases "new_page body ?d1") auto
      let ?d2' = "add_usage (int (p_byteLength body)) d2"
      obtain e3 d3 where ld: "loadDependencies en (dependencies (heap d2 r)) (Some n) ?d2' = (e3, d3)"
        by (cases "loadDependencies en (dependencies (heap d2 r)) (Some n) ?d2'") auto
      show ?thesis
      proof (cases e3)
        case (Some e')
        with Response True np ld assms loadDependencies_error [of en _ _ ?d2' e' d3]
        show ?thesis by (simp add: fetch_page_def Let_def)
      next
        case None
        obtain e4 d4 where rl: "releaseMemoryIfRequired (Some (dependencies (heap d3 r))) d3 = (e4, d4)"
          by (cases "releaseMemoryIfRequired (Some (dependencies (heap d3 r))) d3") auto
        show ?thesis
        proof (cases e4)
          case (Some e')
          with None Response True np ld rl assms releaseMemoryIfRequired_error [OF rl [unfolded Some]]
          show ?thesis by (simp add: fetch_page_def Let_def transport_error_def)
        next
          case e4: None
          with None Response True np ld rl assms show ?thesis
            by (auto simp: fetch_page_def Let_def install_page_def transport_error_def
                     split: option.splits)
        qed
      qed
    qed
  qed
qed

lemma getPage_no_new_decode: "no_new_decode (release_previous n d) (snd (getPage en n d))"
proof (cases "slot (pages d) (n - 1)")
  case None
  then show ?thesis
    using fetch_page_no_new_decode [of "release_previous n d" en n]
    by (auto simp: getPage_unfold Let_def no_new_decode_refl split: option.splits)
next
  case (Some p)
  show ?thesis
  proof (cases "\<not> isOnePageDependenciesLoaded d \<and> doc_id d = ''FORMDJVU''
                 \<and> dependencies (heap d p) \<noteq> []")
    case True
    obtain e3 d3 where ld: "loadDependencies en (dependencies (heap d p)) (Some 1)
                              (release_previous n d) = (e3, d3)"
      by (cases "loadDependencies en (dependencies (heap d p)) (Some 1) (release_previous n d)")
         auto
    from loadDependencies_frame [OF ld] have "heap d3 = heap (release_previous n d)" by simp
    with Some True ld show ?thesis
      by (cases e3) (simp_all add: getPage_unfold Let_def no_new_decode_def)
  next
    case False
    with Some show ?thesis
      by (auto simp: getPage_unfold Let_def no_new_decode_def)
  qed
qed

subsection \<open>Resident identifiers\<close>

lemma run_batch_keys:
  "run_batch en pn is d = (None, d') \<Longrightarrow> fst ` set (djvi d') = set is \<union> fst ` set (djvi d)"
proof (induction "is" arbitrary: d)
  case Nil
  then show ?case by simp
next
  case (Cons i "is")
  from Cons.prems have ok: "dep_ok en d i"
    and rb: "run_batch en pn is (install_dep en i d) = (None, d')"
    by (auto simp: load_one_char split: if_splits)
  from Cons.IH [OF rb] show ?case
    by (auto simp: install_dep_def add_usage_def dom_update)
qed

lemma loadDependencies_keys:
  assumes "loadDependencies en deps pn d = (None, d')"
  shows "set deps \<subseteq> fst ` set (djvi d')"
proof (cases "filter (\<lambda>i. map_of (djvi d) i = None) deps = []")
  case True
  then have "\<forall>i\<in>set deps. map_of (djvi d) i \<noteq> None"
    by (simp add: filter_empty_conv)
  then have "set deps \<subseteq> fst ` set (djvi d)"
    by (auto simp: map_of_None_iff)
  with assms True show ?thesis by (simp add: loadDependencies_def)
next
  case False
  let ?u = "filter (\<lambda>i. map_of (djvi d) i = None) deps"
  let ?d1 = "d\<lparr>fetchLog := fetchLog d @ map (dependency_url en d) ?u\<rparr>"
  from assms False
  have rb: "run_batch en pn (sort_key (completionTime en) ?u) ?d1 = (None, d')"
    by (simp add: loadDependencies_def Let_def)
  from run_batch_keys [OF rb] have k: "fst ` set (djvi d') = set ?u \<union> fst ` set (djvi d)"
    by simp
  show ?thesis
  proof
    fix i assume "i \<in> set deps"
    then show "i \<in> fst ` set (djvi d')"
      unfolding k by (cases "map_of (djvi d) i = None") (auto simp: map_of_None_iff)
  qed
qed

lemma preserve_loop_keys:
  "preserve_loop old is new d = (None, new', d') \<Longrightarrow>
     fst ` set new' = set is \<union> fst ` set new"
proof (induction "is" arbitrary: new d)
  case Nil
  then show ?case by simp
next
  case (Cons i "is")
  from Cons.prems obtain c where c: "map_of old i = Some c"
    and pl: "preserve_loop old is (AList.update i c new) (add_usage (int (chunk_byteLength c)) d)
               = (None, new', d')"
    by (auto split: option.splits)
  from Cons.IH [OF pl] show ?case by (auto simp: dom_update)
qed

lemma release_dictionaries_keys:
  assumes "release_dictionaries ps d = (None, d')"
  shows "fst ` set (djvi d') = set (preserved_list ps)"
proof -
  let ?d1 = "resetLastRequestedPage d"
  obtain e1 new d2 where pl: "preserve_loop (djvi ?d1) (preserved_list ps) [] ?d1 = (e1, new, d2)"
    by (cases "preserve_loop (djvi ?d1) (preserved_list ps) [] ?d1") auto
  from assms pl have e1: "e1 = None" and d': "d' = (subtract_all (djvi d2) d2)\<lparr>djvi := new\<rparr>"
    by (auto simp: release_dictionaries_def Let_def preserved_list_def split: option.splits)
  from preserve_loop_keys [OF pl [unfolded e1]] d' show ?thesis by simp
qed

lemma releaseMemoryIfRequired_keys:
  assumes "releaseMemoryIfRequired ps d = (None, d')"
  shows "djvi d' = djvi d \<or> fst ` set (djvi d') = set (preserved_list ps)"
proof (cases "usage_le_limit d")
  case True
  with assms show ?thesis by (simp add: releaseMemoryIfRequired_def)
next
  case False
  obtain e1 d1 where ev: "evict_pages d = (e1, d1)" by (cases "evict_pages d") auto
  with assms False have e1: "e1 = None"
    by (auto simp: releaseMemoryIfRequired_def split: option.splits)
  note ef = evict_pages_frame [OF ev]
  show ?thesis
  proof (cases "usage_gt_limit d1 \<and> loadedPageNumbers d1 = Some []")
    case True
    with assms False ev e1 have rd: "release_dictionaries ps d1 = (None, d')"
      by (simp add: releaseMemoryIfRequired_def)
    from release_dictionaries_keys [OF rd] show ?thesis by simp
  next
    case nt: False
    with assms False ev e1 have "d' = d1"
      by (auto simp: releaseMemoryIfRequired_def split: if_splits)
    with ef show ?thesis by simp
  qed
qed

lemma evict_pages_slots:
  "evict_pages d = (e, d') \<Longrightarrow> slot (pages d) i = None \<Longrightarrow> slot (pages d') i = None"
proof (induction d rule: evict_pages.induct)
  case (1 d)
  show ?case
  proof (cases "usage_gt_limit d")
    case False
    with "1.prems" show ?thesis by (simp add: evict_pages.simps [of d])
  next
    case True
    show ?thesis
    proof (cases "loadedPageNumbers d")
      case None
      with True "1.prems" show ?thesis by (simp add: evict_pages.simps [of d])
    next
      case (Some l)
      show ?thesis
      proof (cases l)
        case Nil
        with Some True "1.prems" show ?thesis by (simp add: evict_pages.simps [of d])
      next
        case (Cons number rest)
        show ?thesis
        proof (cases "slot (pages d) (int number)")
          case None
          with Cons Some True "1.prems" show ?thesis
            by (auto simp: evict_pages.simps [of d])
        next
          case sp: (Some p)
          let ?d1 = "(add_usage (- int (byteLength (heap d p)))
                       (d\<lparr>loadedPageNumbers := Some rest\<rparr>))
                     \<lparr>pages := (pages d)[number := None]\<rparr>"
          from sp Cons Some True "1.prems"
          have ev: "evict_pages ?d1 = (e, d')"
            by (simp add: evict_pages.simps [of d])
          from sp have nl: "number < length (pages d)" by (simp add: slot_Some_iff)
          have "slot (pages ?d1) i = None"
            using nl "1.prems"(2)
            by (auto simp: slot_def js_nth_def nth_list_update add_usage_def
                     split: option.splits if_splits)
          from "1.IH" [OF True Some Cons sp ev this] show ?thesis .
        qed
      qed
    qed
  qed
qed

lemma releaseMemoryIfRequired_slots:
  assumes "releaseMemoryIfRequired ps d = (e, d')" "slot (pages d) i = None"
  shows "slot (pages d') i = None"
proof (cases "usage_le_limit d")
  case True
  with assms show ?thesis by (simp add: releaseMemoryIfRequired_def)
next
  case False
  obtain e1 d1 where ev: "evict_pages d = (e1, d1)" by (cases "evict_pages d") auto
  note s1 = evict_pages_slots [OF ev assms(2)]
  show ?thesis
  proof (cases "e1 = None \<and> usage_gt_limit d1 \<and> loadedPageNumbers d1 = Some []")
    case True
    with assms False ev have rd: "release_dictionaries ps d1 = (e, d')"
      by (simp add: releaseMemoryIfRequired_def)
    from release_dictionaries_frame [OF rd] s1 show ?thesis by simp
  next
    case nt: False
    with assms False ev have "d' = d1"
      by (auto simp: releaseMemoryIfRequired_def split: option.splits if_splits)
    with s1 show ?thesis by simp
  qed
qed

subsection \<open>A successful getPage\<close>

lemma with_new_page_fields:
  "pages (with_new_page body url d) = pages d"
  "djvi (with_new_page body url d) = djvi d"
  "loadedPageNumbers (with_new_page body url d) = loadedPageNumbers d"
  "lastRequestedPage (with_new_page body url d) = lastRequestedPage d"
  "next_ref (with_new_page body url d) = Suc (next_ref d)"
  "fetchLog (with_new_page body url d) = fetchLog d @ [url]"
  "memoryUsage (with_new_page body url d) =
     map_option (\<lambda>m. m + int (p_byteLength body)) (memoryUsage d)"
  "heap (with_new_page body url d) (next_ref d) =
     \<lparr>byteLength = p_byteLength body, bsLength = p_bsLength body,
      dependencies = p_dependencies body, decoded = False\<rparr>"
  "static_eq d (with_new_page body url d)"
  "isOnePageDependenciesLoaded (with_new_page body url d) = isOnePageDependenciesLoaded d"
  by (simp_all add: with_new_page_def new_page_def add_usage_def static_eq_def)

lemma fetch_page_ok:
  assumes "fetch en (b @ pageName en n) = Response True body" "p_magic body = ''AT&T''"
  shows "fetch_page en n b d =
      (case loadDependencies en (p_dependencies body) (Some n)
              (with_new_page body (b @ pageName en n) d) of
         (Some e, d3) \<Rightarrow> (Inl e, d3)
       | (None, d3) \<Rightarrow>
           (case releaseMemoryIfRequired (Some (p_dependencies body)) d3 of
              (Some e, d4) \<Rightarrow> (Inl e, d4)
            | (None, d4) \<Rightarrow> install_page n (next_ref d) d4))"
proof -
  let ?d2 = "with_new_page body (b @ pageName en n) d"
  obtain e3 d3 where ld: "loadDependencies en (p_dependencies body) (Some n) ?d2 = (e3, d3)"
    by (cases "loadDependencies en (p_dependencies body) (Some n) ?d2") auto
  from loadDependencies_frame [OF ld]
  have "dependencies (heap d3 (next_ref d)) = p_dependencies body"
    by (simp add: with_new_page_fields)
  with ld assms show ?thesis
    unfolding with_new_page_def
    by (cases e3) (simp_all add: fetch_page_def Let_def new_page_def)
qed

lemma fetch_page_success:
  assumes fp: "fetch_page en n b d = (Inr r, d')" and n: "1 \<le> n" "n \<le> int (length (pages d))"
  shows "r = Some (next_ref d) \<and> slot (pages d') (n - 1) = Some (next_ref d)
         \<and> lastRequestedPage d' = Some (next_ref d)
         \<and> set (dependencies (heap d' (next_ref d))) \<subseteq> fst ` set (djvi d')
         \<and> isOnePageDependenciesLoaded d' = isOnePageDependenciesLoaded d
         \<and> doc_id d' = doc_id d"
proof -
  let ?url = "b @ pageName en n"
  from fp obtain body where resp: "fetch en ?url = Response True body"
    and magic: "p_magic body = ''AT&T''"
    by (auto simp: fetch_page_def Let_def split: fetch_result.splits if_splits)
  note fpu = fetch_page_ok [OF resp magic, of d]
  let ?d2 = "with_new_page body ?url d"
  obtain e3 d3 where ld0: "loadDependencies en (p_dependencies body) (Some n) ?d2 = (e3, d3)"
    by (cases "loadDependencies en (p_dependencies body) (Some n) ?d2") auto
  from fp fpu ld0 have e3: "e3 = None" by (cases e3) auto
  from ld0 e3 have ld: "loadDependencies en (p_dependencies body) (Some n) ?d2 = (None, d3)"
    by simp
  note f3 = loadDependencies_frame [OF ld]
  note k3 = loadDependencies_keys [OF ld]
  obtain e4 d4 where rl0: "releaseMemoryIfRequired (Some (p_dependencies body)) d3 = (e4, d4)"
    by (cases "releaseMemoryIfRequired (Some (p_dependencies body)) d3") auto
  from fp fpu ld rl0 have e4: "e4 = None" by (cases e4) auto
  from rl0 e4 have rl: "releaseMemoryIfRequired (Some (p_dependencies body)) d3 = (None, d4)"
    by simp
  from fp fpu ld rl have ip: "install_page n (next_ref d) d4 = (Inr r, d')" by simp
  note f4 = releaseMemoryIfRequired_frame [OF rl]
  from releaseMemoryIfRequired_keys [OF rl] k3
  have k4: "set (p_dependencies body) \<subseteq> fst ` set (djvi d4)"
    by (auto simp: preserved_list_def)
  from f4 f3 have len4: "length (pages d4) = length (pages d)"
    by (simp add: with_new_page_fields)
  from f4 f3 have dep4: "dependencies (heap d4 (next_ref d)) = p_dependencies body"
    by (simp add: with_new_page_fields)
  from ip obtain l where l4: "loadedPageNumbers d4 = Some l"
    by (auto simp: install_page_def Let_def split: option.splits)
  with ip have r: "r = Some (next_ref d)"
    and d': "d' = d4\<lparr>pages := (pages d4)[nat (n - 1) := Some (next_ref d)],
                     loadedPageNumbers := Some (l @ [nat (n - 1)]),
                     lastRequestedPage := Some (next_ref d)\<rparr>"
    by (auto simp: install_page_def Let_def)
  have s: "slot (pages d') (n - 1) = Some (next_ref d)"
    using n len4 by (simp add: d' slot_def js_nth_def)
  have "isOnePageDependenciesLoaded d' = isOnePageDependenciesLoaded d \<and> doc_id d' = doc_id d"
    using f4 f3 by (simp add: d' with_new_page_fields static_eq_def
        with_new_page_fields(9) [unfolded static_eq_def])
  with r s k4 dep4 show ?thesis by (simp add: d')
qed

lemma same_lastRequestedPage: "lastRequestedPage d = s \<Longrightarrow> d\<lparr>lastRequestedPage := s\<rparr> = d"
  by (cases d) simp

lemma release_previous_idle:
  "lastRequestedPage d = slot (pages d) (n - 1) \<Longrightarrow> release_previous n d = d"
  by (auto simp: release_previous_def same_lastRequestedPage split: option.splits)

lemma loadDependencies_loaded:
  "set deps \<subseteq> fst ` set (djvi d) \<Longrightarrow> loadDependencies en deps pn d = (None, d)"
proof -
  assume "set deps \<subseteq> fst ` set (djvi d)"
  then have "filter (\<lambda>i. map_of (djvi d) i = None) deps = []"
    by (auto simp: filter_empty_conv map_of_None_iff)
  then show ?thesis by (simp add: loadDependencies_def)
qed

lemma getPage_success:
  assumes "fst (getPage en n d) = Inr r"
  shows "\<exists>a. r = Some a \<and> slot (pages (snd (getPage en n d))) (n - 1) = Some a
           \<and> lastRequestedPage (snd (getPage en n d)) = Some a
           \<and> (isOnePageDependenciesLoaded (snd (getPage en n d))
               \<or> doc_id (snd (getPage en n d)) \<noteq> ''FORMDJVU''
               \<or> set (dependencies (heap (snd (getPage en n d)) a))
                    \<subseteq> fst ` set (djvi (snd (getPage en n d))))"
proof (cases "slot (pages d) (n - 1)")
  case None
  with assms obtain b where n: "1 \<le> n" "n \<le> int (length (pages d))"
    and gp: "getPage en n d = fetch_page en n b (release_previous n d)"
    by (auto simp: getPage_unfold Let_def split: if_splits option.splits)
  obtain d' where fp: "fetch_page en n b (release_previous n d) = (Inr r, d')"
    using assms gp by (cases "fetch_page en n b (release_previous n d)") auto
  from fetch_page_success [OF fp] n gp fp show ?thesis
    by (simp add: release_previous_fields)
next
  case (Some p)
  let ?d2 = "release_previous n d"
  have l2: "lastRequestedPage ?d2 = Some p" and s2: "slot (pages ?d2) (n - 1) = Some p"
    using Some by (simp_all add: release_previous_fields)
  show ?thesis
  proof (cases "\<not> isOnePageDependenciesLoaded d \<and> doc_id d = ''FORMDJVU''")
    case False
    with Some have "getPage en n d = (Inr (Some p), ?d2)"
      by (auto simp: getPage_unfold Let_def)
    with assms l2 s2 False show ?thesis by (auto simp: release_previous_fields)
  next
    case True
    show ?thesis
    proof (cases "dependencies (heap d p) = []")
      case e: True
      with True Some have "getPage en n d = (Inr (Some p), ?d2\<lparr>isOnePageDependenciesLoaded := True\<rparr>)"
        by (simp add: getPage_unfold Let_def)
      with assms l2 s2 show ?thesis by auto
    next
      case ne: False
      obtain e3 d3 where ld: "loadDependencies en (dependencies (heap d p)) (Some 1) ?d2 = (e3, d3)"
        by (cases "loadDependencies en (dependencies (heap d p)) (Some 1) ?d2") auto
      with assms True Some ne have e3: "e3 = None"
        by (cases e3) (simp_all add: getPage_unfold Let_def)
      note f3 = loadDependencies_frame [OF ld]
      from True Some ne ld e3
      have "getPage en n d = (Inr (lastRequestedPage d3), d3\<lparr>isOnePageDependenciesLoaded := True\<rparr>)"
        by (simp add: getPage_unfold Let_def)
      with assms l2 s2 f3 show ?thesis by auto
    qed
  qed
qed

subsection \<open>A failing dependency batch\<close>






subsection \<open>After a run of the memory governor\<close>

lemma releaseMemoryIfRequired_post:
  assumes "memoryUsage d \<noteq> None" "releaseMemoryIfRequired ps d = (None, d')"
  shows "usage_le_limit d'
         \<or> (loadedPageNumbers d' = Some [] \<and> fst ` set (djvi d') \<subseteq> set (preserved_list ps))"
proof (cases "usage_le_limit d")
  case True
  with assms show ?thesis by (simp add: releaseMemoryIfRequired_def)
next
  case False
  obtain e1 d1 where ev: "evict_pages d = (e1, d1)" by (cases "evict_pages d") auto
  with assms False have e1: "e1 = None"
    by (auto simp: releaseMemoryIfRequired_def split: option.splits)
  show ?thesis
  proof (cases "usage_gt_limit d1 \<and> loadedPageNumbers d1 = Some []")
    case True
    with assms False ev e1 have rd: "release_dictionaries ps d1 = (None, d')"
      by (simp add: releaseMemoryIfRequired_def)
    from release_dictionaries_keys [OF rd] release_dictionaries_frame [OF rd] True
    show ?thesis by simp
  next
    case nt: False
    with assms False ev e1 have d': "d' = d1"
      by (auto simp: releaseMemoryIfRequired_def split: if_splits)
    have gt: "\<not> usage_gt_limit d1"
    proof
      assume g: "usage_gt_limit d1"
      with nt have nl: "loadedPageNumbers d1 \<noteq> Some []" by simp
      from ev e1 g nl show False
      proof (induction d rule: evict_pages.induct)
        case (1 d)
        show ?case
        proof (cases "usage_gt_limit d")
          case False
          with "1.prems" show ?thesis by (simp add: evict_pages.simps [of d])
        next
          case True
          show ?thesis
          proof (cases "loadedPageNumbers d")
            case None
            with True "1.prems" show ?thesis by (simp add: evict_pages.simps [of d])
          next
            case (Some l)
            show ?thesis
            proof (cases l)
              case Nil
              with Some True "1.prems" show ?thesis by (simp add: evict_pages.simps [of d])
            next
              case (Cons number rest)
              show ?thesis
              proof (cases "slot (pages d) (int number)")
                case None
                with Cons Some True "1.prems" show ?thesis
                  by (simp add: evict_pages.simps [of d])
              next
                case sp: (Some p)
                with Cons Some True "1.prems" "1.IH" [OF True Some Cons sp] show ?thesis
                  by (simp add: evict_pages.simps [of d])
              qed
            qed
          qed
        qed
      qed
    qed
    have "memoryUsage d1 \<noteq> None"
      using ev assms(1)
    proof (induction d rule: evict_pages.induct)
      case (1 d)
      show ?case
      proof (cases "usage_gt_limit d")
        case False
        with "1.prems" show ?thesis by (simp add: evict_pages.simps [of d])
      next
        case True
        show ?thesis
        proof (cases "loadedPageNumbers d")
          case None
          with True "1.prems" show ?thesis by (simp add: evict_pages.simps [of d])
        next
          case (Some l)
          show ?thesis
          proof (cases l)
            case Nil
            with Some True "1.prems" show ?thesis by (simp add: evict_pages.simps [of d])
          next
            case (Cons number rest)
            show ?thesis
            proof (cases "slot (pages d) (int number)")
              case None
              with Cons Some True "1.prems" show ?thesis
                by (auto simp: evict_pages.simps [of d])
            next
              case sp: (Some p)
              with Cons Some True "1.prems" "1.IH" [OF True Some Cons sp] show ?thesis
                by (auto simp: evict_pages.simps [of d] add_usage_def)
            qed
          qed
        qed
      qed
    qed
    with gt have "usage_le_limit d1"
      by (auto simp: usage_le_limit_def usage_gt_limit_def)
    with d' show ?thesis by simp
  qed
qed

subsection \<open>The eviction order\<close>












subsection \<open>Fresh identifiers\<close>

lemma unique_id_fresh: "unique_id idset base newid tmp \<notin> set idset"
proof (induction idset base newid tmp rule: unique_id.induct)
  case (1 idset base newid tmp)
  then show ?case by (subst unique_id.simps) auto
qed

lemma unique_id_form:
  "(newid \<notin> set idset \<and> unique_id idset base newid tmp = newid)
   \<or> (newid \<in> set idset
       \<and> (\<exists>k\<ge>tmp. unique_id idset base newid tmp = Some (js_str base @ toString k)
              \<and> (\<forall>j. tmp \<le> j \<and> j < k \<longrightarrow> Some (js_str base @ toString j) \<in> set idset)))"
proof (induction idset base newid tmp rule: unique_id.induct)
  case (1 idset base newid tmp)
  show ?case
  proof (cases "newid \<in> set idset")
    case False
    then show ?thesis by (subst unique_id.simps) simp
  next
    case True
    let ?n = "Some (js_str base @ toString tmp)"
    have u: "unique_id idset base newid tmp = unique_id idset base ?n (Suc tmp)"
      using True by (subst unique_id.simps) simp
    from "1.IH" [OF True] show ?thesis
    proof
      assume "?n \<notin> set idset \<and> unique_id idset base ?n (Suc tmp) = ?n"
      with True u show ?thesis by (intro disjI2 conjI exI [of _ tmp]) auto
    next
      assume "?n \<in> set idset
        \<and> (\<exists>k\<ge>Suc tmp. unique_id idset base ?n (Suc tmp) = Some (js_str base @ toString k)
              \<and> (\<forall>j. Suc tmp \<le> j \<and> j < k \<longrightarrow> Some (js_str base @ toString j) \<in> set idset))"
      then obtain k where m: "?n \<in> set idset" and k: "k \<ge> Suc tmp"
        and r: "unique_id idset base ?n (Suc tmp) = Some (js_str base @ toString k)"
        and a: "\<forall>j. Suc tmp \<le> j \<and> j < k \<longrightarrow> Some (js_str base @ toString j) \<in> set idset"
        by blast
      have "\<forall>j. tmp \<le> j \<and> j < k \<longrightarrow> Some (js_str base @ toString j) \<in> set idset"
      proof (intro allI impI)
        fix j assume "tmp \<le> j \<and> j < k"
        then show "Some (js_str base @ toString j) \<in> set idset"
          using m a by (cases "j = tmp") auto
      qed
      with True u r k show ?thesis by (intro disjI2 conjI exI [of _ k]) auto
    qed
  qed
qed

lemma unique_id_suffixed: "suffixed idset base (unique_id idset base base 0)"
  using unique_id_form [of base idset base 0] by (auto simp: suffixed_def)

lemma set_idset_add: "set (idset_add x s) = insert x (set s)"
  by (auto simp: idset_add_def)

lemma concat_first_loop_char:
  "c_ids (concat_first_loop d dm is a)
     = c_ids a @ map (\<lambda>i. map_option e_id (js_nth (entries dm) (int i))) is
   \<and> set (c_idset (concat_first_loop d dm is a))
     = set (c_idset a) \<union> set (map (\<lambda>i. map_option e_id (js_nth (entries dm) (int i))) is)
   \<and> c_pages (concat_first_loop d dm is a) = c_pages a @ map (\<lambda>i. page_at d (int i)) is
   \<and> length (c_flags (concat_first_loop d dm is a)) = length (c_flags a) + length is
   \<and> length (c_sizes (concat_first_loop d dm is a)) = length (c_sizes a) + length is"
  by (induction "is" arbitrary: a) (auto simp: set_idset_add)

lemma concat_second_loop_char:
  "ids_ok a \<Longrightarrow>
     ids_ok (concat_second_loop d dm is a)
     \<and> c_pages (concat_second_loop d dm is a) = c_pages a @ map (\<lambda>i. page_at d (int i)) is
     \<and> length (c_ids (concat_second_loop d dm is a)) = length (c_ids a) + length is
     \<and> take (length (c_ids a)) (c_ids (concat_second_loop d dm is a)) = c_ids a"
proof (induction "is" arbitrary: a)
  case Nil
  then show ?case by simp
next
  case (Cons i "is")
  let ?base = "map_option e_id (js_nth (entries dm) (int i))"
  let ?new = "unique_id (c_idset a) ?base ?base 0"
  let ?a1 = "a\<lparr>c_flags := c_flags a @ [map_option e_flags (js_nth (entries dm) (int i))],
              c_sizes := c_sizes a @ [map_option e_size (js_nth (entries dm) (int i))],
              c_ids := c_ids a @ [?new],
              c_idset := idset_add ?new (c_idset a),
              c_pages := c_pages a @ [page_at d (int i)]\<rparr>"
  have fresh: "?new \<notin> set (c_idset a)" by (rule unique_id_fresh)
  with Cons.prems have ok1: "ids_ok ?a1"
    by (auto simp: ids_ok_def set_idset_add)
  have st: "concat_second_loop d dm (i # is) a = concat_second_loop d dm is ?a1"
    by (simp add: Let_def)
  from Cons.IH [OF ok1] show ?case
    unfolding st by (auto simp: take_Suc_conv_app_nth dest: arg_cong [where f = "take (length (c_ids a))"])
qed

lemma suffixed_cong: "set used = set used' \<Longrightarrow> suffixed used base n = suffixed used' base n"
  by (simp add: suffixed_def)

lemma concat_second_loop_suffixed:
  "ids_eq a \<Longrightarrow>
     (\<forall>j<length is.
        suffixed (take (length (c_ids a) + j) (c_ids (concat_second_loop d dm is a)))
          (map_option e_id (js_nth (entries dm) (int (is ! j))))
          (c_ids (concat_second_loop d dm is a) ! (length (c_ids a) + j)))
     \<and> distinct (c_ids (concat_second_loop d dm is a))"
proof (induction "is" arbitrary: a)
  case Nil
  then show ?case by (simp add: ids_eq_def)
next
  case (Cons i "is")
  let ?base = "map_option e_id (js_nth (entries dm) (int i))"
  let ?new = "unique_id (c_idset a) ?base ?base 0"
  let ?a1 = "a\<lparr>c_flags := c_flags a @ [map_option e_flags (js_nth (entries dm) (int i))],
              c_sizes := c_sizes a @ [map_option e_size (js_nth (entries dm) (int i))],
              c_ids := c_ids a @ [?new],
              c_idset := idset_add ?new (c_idset a),
              c_pages := c_pages a @ [page_at d (int i)]\<rparr>"
  let ?r = "c_ids (concat_second_loop d dm is ?a1)"
  have fresh: "?new \<notin> set (c_idset a)" by (rule unique_id_fresh)
  with Cons.prems have eq1: "ids_eq ?a1"
    by (auto simp: ids_eq_def set_idset_add)
  then have ok1: "ids_ok ?a1" by (simp add: ids_eq_def ids_ok_def)
  have st: "concat_second_loop d dm (i # is) a = concat_second_loop d dm is ?a1"
    by (simp add: Let_def)
  from concat_second_loop_char [OF ok1, of d dm "is"]
  have tk: "take (Suc (length (c_ids a))) ?r = c_ids a @ [?new]"
    and ln: "length ?r = Suc (length (c_ids a)) + length is"
    by simp_all
  have "take (length (c_ids a)) ?r = take (length (c_ids a)) (take (Suc (length (c_ids a))) ?r)"
    by simp
  also have "\<dots> = take (length (c_ids a)) (c_ids a @ [?new])" by (simp only: tk)
  finally have tk0: "take (length (c_ids a)) ?r = c_ids a" by simp
  have "?r ! length (c_ids a) = take (Suc (length (c_ids a))) ?r ! length (c_ids a)"
    by simp
  also have "\<dots> = (c_ids a @ [?new]) ! length (c_ids a)" by (simp only: tk)
  finally have n0: "?r ! length (c_ids a) = ?new" by simp
  from Cons.IH [OF eq1]
  have ih: "\<forall>j<length is.
        suffixed (take (Suc (length (c_ids a)) + j) ?r)
          (map_option e_id (js_nth (entries dm) (int (is ! j))))
          (?r ! (Suc (length (c_ids a)) + j))"
    and di: "distinct ?r"
    by simp_all
  have s0: "suffixed (c_ids a) ?base ?new"
    using unique_id_suffixed [of "c_idset a" ?base] Cons.prems
    by (simp add: suffixed_def ids_eq_def)
  show ?case
    unfolding st
  proof (intro conjI allI impI)
    fix j assume j: "j < length (i # is)"
    show "suffixed (take (length (c_ids a) + j) ?r)
            (map_option e_id (js_nth (entries dm) (int ((i # is) ! j))))
            (?r ! (length (c_ids a) + j))"
    proof (cases j)
      case 0
      with s0 tk0 n0 show ?thesis by simp
    next
      case (Suc j')
      with j ih show ?thesis by simp
    qed
  next
    show "distinct ?r" by (rule di)
  qed
qed

lemma written_pages_total:
  "\<forall>i\<in>set is. \<exists>p. js_nth ps (int i) = Some (Some p) \<Longrightarrow> \<exists>out. written_pages ps is = Inr out"
proof (induction "is")
  case Nil
  show ?case by simp
next
  case (Cons i "is")
  then obtain p out where "js_nth ps (int i) = Some (Some p)" "written_pages ps is = Inr out"
    by auto
  then show ?case by simp
qed

lemma page_at_loaded:
  "\<forall>s\<in>set (pages d). s \<noteq> None \<Longrightarrow> i < length (pages d) \<Longrightarrow> \<exists>p. page_at d (int i) = Some p"
  by (auto simp: page_at_def slot_def js_nth_def split: option.splits)

lemma first_ids_distinct:
  assumes "distinct (map e_id es)" "n \<le> length es"
  shows "distinct (map (\<lambda>i. map_option e_id (js_nth es (int i))) [0..<n])"
proof -
  have "map (\<lambda>i. map_option e_id (js_nth es (int i))) [0..<n] = map Some (take n (map e_id es))"
    using assms(2)
    by (intro nth_equalityI) (simp_all add: js_nth_def)
  moreover have "distinct (map Some (take n (map e_id es)))"
    using assms(1) by (simp add: distinct_map distinct_take)
  ultimately show ?thesis by simp
qed

lemma concat_first_ids:
  assumes "unique_directory d"
    "concat_first d \<lparr>c_flags = [], c_sizes = [], c_ids = [], c_pages = [], c_idset = []\<rparr> = Inr a"
  shows "ids_eq a \<and> length (c_ids a) = first_count d"
proof (cases "dirm d")
  case None
  with assms(2) show ?thesis
    by (auto simp: concat_first_def ids_eq_def set_idset_add first_count_def
             split: option.splits)
next
  case (Some dm)
  let ?a0 = "\<lparr>c_flags = [], c_sizes = [], c_ids = [], c_pages = [], c_idset = []\<rparr>"
  let ?n = "length (pages d)"
  note c = concat_first_loop_char [of d dm "[0..<?n]" ?a0]
  from assms(1) Some have "distinct (map e_id (entries dm))" "?n \<le> length (entries dm)"
    by (simp_all add: unique_directory_def)
  from first_ids_distinct [OF this]
  have di: "distinct (c_ids (concat_first_loop d dm [0..<?n] ?a0))" using c by simp
  from Some assms(2) have "a = concat_first_loop d dm [0..<?n] ?a0"
    by (simp add: concat_first_def)
  with Some c di show ?thesis
    by (simp add: ids_eq_def first_count_def)
qed

lemma concat_second_ids:
  assumes "ids_eq a1" "concat_second d a1 = Inr a2"
  shows "distinct (c_ids a2)
         \<and> (\<forall>j<length (second_ids d).
               suffixed (take (length (c_ids a1) + j) (c_ids a2)) (second_ids d ! j)
                 (c_ids a2 ! (length (c_ids a1) + j)))"
proof (cases "dirm d")
  case None
  let ?new = "unique_id (c_idset a1) (Some ''single2'') (Some ''single2'') 0"
  have fresh: "?new \<notin> set (c_idset a1)" by (rule unique_id_fresh)
  have sx: "suffixed (c_ids a1) (Some ''single2'') ?new"
    using unique_id_suffixed [of "c_idset a1" "Some ''single2''"] assms(1)
    by (simp add: suffixed_def ids_eq_def)
  from None assms(2) have ids: "c_ids a2 = c_ids a1 @ [?new]"
    by (auto simp: concat_second_def split: option.splits)
  from ids fresh assms(1) sx None show ?thesis
    by (simp add: ids_eq_def second_ids_def)
next
  case (Some dm)
  let ?n2 = "length (pages d)"
  note s = concat_second_loop_suffixed [OF assms(1), of "[0..<?n2]" d dm]
  from Some assms(2) have "a2 = concat_second_loop d dm [0..<?n2] a1"
    by (simp add: concat_second_def)
  with Some s show ?thesis
    by (simp add: second_ids_def)
qed

lemma concat_second_loop_pages:
  "c_pages (concat_second_loop d dm is a) = c_pages a @ map (\<lambda>i. page_at d (int i)) is"
  by (induction "is" arbitrary: a) (simp_all add: Let_def)

lemma concat_first_loop_pages:
  "c_pages (concat_first_loop d dm is a) = c_pages a @ map (\<lambda>i. page_at d (int i)) is"
  by (induction "is" arbitrary: a) simp_all

lemma loaded_pages_at:
  assumes "\<forall>s\<in>set (pages d). s \<noteq> None"
  shows "\<forall>p\<in>set (map (\<lambda>i. page_at d (int i)) [0..<length (pages d)]). p \<noteq> None"
  using page_at_loaded [OF assms] by auto

lemma concat_first_total:
  assumes "all_loaded d"
  shows "\<exists>a. concat_first d \<lparr>c_flags = [], c_sizes = [], c_ids = [], c_pages = [], c_idset = []\<rparr>
               = Inr a
           \<and> length (c_pages a) = length (pages d) \<and> (\<forall>p\<in>set (c_pages a). p \<noteq> None)"
proof (cases "dirm d")
  case None
  with assms obtain s where ps: "pages d = [Some s]"
    by (cases "pages d") (auto simp: all_loaded_def)
  then have "page_at d 0 = Some (heap d s)" by (simp add: page_at_def slot_def js_nth_def)
  with None ps show ?thesis
    by (simp add: concat_first_def)
next
  case (Some dm)
  from assms have "\<forall>s\<in>set (pages d). s \<noteq> None" by (simp add: all_loaded_def)
  from loaded_pages_at [OF this] Some show ?thesis
    by (simp add: concat_first_def concat_first_loop_pages)
qed

lemma concat_second_total:
  assumes "all_loaded d" "\<forall>p\<in>set (c_pages a1). p \<noteq> None"
  shows "\<exists>a2. concat_second d a1 = Inr a2
           \<and> length (c_pages a2) = length (c_pages a1) + length (pages d)
           \<and> (\<forall>p\<in>set (c_pages a2). p \<noteq> None)"
proof (cases "dirm d")
  case None
  with assms(1) obtain s where ps: "pages d = [Some s]"
    by (cases "pages d") (auto simp: all_loaded_def)
  then have "page_at d 0 = Some (heap d s)" by (simp add: page_at_def slot_def js_nth_def)
  with None ps assms(2) show ?thesis
    by (simp add: concat_second_def)
next
  case (Some dm)
  from assms(1) have "\<forall>s\<in>set (pages d). s \<noteq> None" by (simp add: all_loaded_def)
  from loaded_pages_at [OF this] Some assms(2) show ?thesis
    by (auto simp: concat_second_def concat_second_loop_pages)
qed

lemma concat_docs_total:
  assumes "all_loaded doc1" "all_loaded doc2"
  shows "\<exists>out. concat_docs doc1 doc2 = Inr out"
proof -
  let ?n1 = "length (pages doc1)"
  let ?n2 = "length (pages doc2)"
  from concat_first_total [OF assms(1)] obtain a1 where
    f: "concat_first doc1 \<lparr>c_flags = [], c_sizes = [], c_ids = [], c_pages = [], c_idset = []\<rparr>
          = Inr a1"
    and lp1: "length (c_pages a1) = ?n1" and p1: "\<forall>p\<in>set (c_pages a1). p \<noteq> None"
    by blast
  from concat_second_total [OF assms(2) p1] lp1 obtain a2 where
    g: "concat_second doc2 a1 = Inr a2" and lp2: "length (c_pages a2) = ?n1 + ?n2"
    and p2: "\<forall>p\<in>set (c_pages a2). p \<noteq> None"
    by auto
  have "\<forall>i\<in>set [0..<?n1 + ?n2]. \<exists>p. js_nth (c_pages a2) (int i) = Some (Some p)"
  proof
    fix i assume "i \<in> set [0..<?n1 + ?n2]"
    then have il: "i < length (c_pages a2)" using lp2 by simp
    then have "c_pages a2 ! i \<in> set (c_pages a2)" by simp
    with p2 obtain p where "c_pages a2 ! i = Some p" by auto
    with il show "\<exists>p. js_nth (c_pages a2) (int i) = Some (Some p)"
      by (simp add: js_nth_def)
  qed
  from written_pages_total [OF this] obtain ps where
    w: "written_pages (c_pages a2) [0..<?n1 + ?n2] = Inr ps" by blast
  from f g w show ?thesis by (simp add: concat_docs_def Let_def)
qed

lemma parseComponents_pages:
  "length (pages (parseComponents bv es d)) \<le> length (pages d) + length es"
proof (induction bv es d rule: parseComponents.induct)
  case (1 bv d)
  show ?case by simp
next
  case (2 bv e es d)
  then show ?case
    by (auto simp: Let_def alloc_page_def split: prod.splits if_splits)
qed

lemma DjVuDocument_page_slots:
  assumes "DjVuDocument resolve bv b limit = Inr d" "dirm d = Some dm"
  shows "length (pages d) \<le> length (entries dm)"
proof -
  from assms have id: "bv_id bv = ''FORMDJVM''"
    by (auto simp: DjVuDocument_def Let_def alloc_page_def blank_doc_def split: if_splits)
  with assms(1) have im: "initMultiPageDocument bv
        ((blank_doc (init_baseUrl resolve b) limit)\<lparr>doc_id := bv_id bv\<rparr>) = Inr d"
    by (simp add: DjVuDocument_def Let_def split: if_splits)
  show ?thesis
  proof (cases "isBundled (bv_dirm bv)")
    case True
    let ?d1 = "(blank_doc (init_baseUrl resolve b) limit)
                 \<lparr>doc_id := bv_id bv, dirm := Some (bv_dirm bv), navm := bv_navm bv,
                   pages := [], idToPageNumberMap := Some []\<rparr>"
    from im True have d: "d = parseComponents bv (entries (bv_dirm bv)) ?d1"
      by (auto simp: initMultiPageDocument_def Let_def split: if_splits)
    with assms(2) have "dm = bv_dirm bv" by (simp add: parseComponents_fields)
    with d parseComponents_pages [of bv "entries (bv_dirm bv)" ?d1] show ?thesis by simp
  next
    case False
    with im have "dirm d = Some (bv_dirm bv)"
      and "pages d = replicate (dirm_getPagesQuantity (bv_dirm bv)) None"
      by (auto simp: initMultiPageDocument_def Let_def split: if_splits)
    with assms(2) show ?thesis by (simp add: dirm_getPagesQuantity_def)
  qed
qed

subsection \<open>Page references and slices\<close>

lemma getPageNumberByUrl_multi_page:
  assumes "idToPageNumberMap d = Some m"
  shows "(url = [] \<or> hd url \<noteq> CHR ''#'' \<longrightarrow> getPageNumberByUrl rn d url = Inr None)
    \<and> (\<forall>ref p. url = CHR ''#'' # ref \<and> map_of m ref = Some p \<and> p \<noteq> 0
          \<longrightarrow> getPageNumberByUrl rn d url = Inr (Some (int p)))
    \<and> (\<forall>ref k. url = CHR ''#'' # ref \<and> (map_of m ref = None \<or> map_of m ref = Some 0)
            \<and> rn ref = Some k \<and> 1 \<le> k \<and> k \<le> int (length (pages d))
          \<longrightarrow> getPageNumberByUrl rn d url = Inr (Some k))
    \<and> (\<forall>ref. url = CHR ''#'' # ref \<and> (map_of m ref = None \<or> map_of m ref = Some 0)
            \<and> (case rn ref of None \<Rightarrow> True | Some k \<Rightarrow> k < 1 \<or> k > int (length (pages d)))
          \<longrightarrow> getPageNumberByUrl rn d url = Inr None)"
  using assms
  by (cases url) (auto simp: getPageNumberByUrl_def truthy_def Let_def split: option.splits)

lemma slice_pass2_pages:
  "0 \<le> pageIndex \<Longrightarrow>
     filter (\<lambda>e. isPageFlag (e_flags e)) (slice_pass2 deps 1 pageNumber es pageIndex added)
       = take (nat (pageNumber - added)) (filter (\<lambda>e. isPageFlag (e_flags e)) es)"
proof (induction es arbitrary: pageIndex added)
  case Nil
  show ?case by simp
next
  case (Cons e es)
  show ?case
  proof (cases "added < pageNumber")
    case False
    then show ?thesis by simp
  next
    case True
    then have n: "nat (pageNumber - added) = Suc (nat (pageNumber - (added + 1)))" by simp
    show ?thesis
    proof (cases "isPageFlag (e_flags e)")
      case p: True
      from Cons.prems have "0 \<le> pageIndex + 1" by simp
      from Cons.IH [OF this, of "added + 1"] True p Cons.prems show ?thesis
        by (simp add: n)
    next
      case False
      with Cons.IH [OF Cons.prems, of added] True show ?thesis by simp
    qed
  qed
qed

lemma slice_pass2_others:
  "e \<in> set (slice_pass2 deps from pageNumber es pageIndex added) \<Longrightarrow>
     e \<in> set es \<and> (isPageFlag (e_flags e) \<or> e_id e \<in> set deps)"
  by (induction es arbitrary: pageIndex added) (auto split: if_splits)

section \<open>The claims\<close>

lemma ex_constructed:
  "DjVuDocument ex_resolve ex_view b limit = Inr (ex_indirect (init_baseUrl ex_resolve b) limit)"
  by (simp add: DjVuDocument_def initMultiPageDocument_def ex_view_def ex_dirm_def
        ex_indirect_def blank_doc_def Let_def dirm_getPagesQuantity_def isPageFlag_def)

lemma ex_env_dependency_sets: "dependency_sets ex_env"
  by (auto simp: dependency_sets_def ex_env_def ex_file_def split: if_splits)

lemma ex_bundled_constructed:
  "DjVuDocument ex_resolve ex_bundled_view None MEMORY_LIMIT = Inr ex_bundled"
  by (simp add: DjVuDocument_def initMultiPageDocument_def ex_bundled_view_def
        ex_bundled_dirm_def ex_bundled_def blank_doc_def Let_def alloc_page_def init_baseUrl_def)

text \<open>
  Claim C7. For every document, \<open>getPage(n)\<close> with \<open>n\<close> outside
  \<open>[1, pageCount]\<close> fails with \<open>NoSuchPage\<close>, and on a bundled document
  an empty page slot also fails with \<open>NoSuchPage\<close>. The page count is the
  length of the slot sequence \<open>pages\<close>, which is what \<open>getPage\<close> compares
  with.
\<close>

theorem getPage_NoSuchPage:
  assumes "number < 1 \<or> number > int (length (pages d))
             \<or> (isBundled_doc d \<and> slot (pages d) (number - 1) = None)"
  shows "fst (getPage en number d) = Inl (NoSuchPageDjVuError number)"
proof -
  have s: "slot (pages d) (number - 1) = None"
    using assms slot_out_of_range [of "number - 1" "pages d"] by auto
  show ?thesis
    using assms s
    by (auto simp: getPage_def Let_def isBundled_doc_def reset_page_def split: option.splits)
qed

theorem getPage_NoSuchPage_witness:
  "(0 < (1::int) \<or> 0 > int (length (pages (ex_indirect None 1000)))
      \<or> (isBundled_doc (ex_indirect None 1000)
          \<and> slot (pages (ex_indirect None 1000)) (0 - 1) = None))
   \<and> fst (getPage ex_env 0 (ex_indirect None 1000)) = Inl (NoSuchPageDjVuError 0)
   \<and> fst (getPage ex_env 3 (ex_indirect None 1000)) = Inl (NoSuchPageDjVuError 3)"
  using getPage_NoSuchPage [of 0 "ex_indirect None 1000" ex_env]
    getPage_NoSuchPage [of 3 "ex_indirect None 1000" ex_env]
  by (simp add: ex_indirect_def)

text \<open>
  Claim C6. For every indirect document with no configured base location,
  \<open>getPage(n)\<close> on an empty slot with \<open>n\<close> in \<open>[1, pageCount]\<close> fails
  with \<open>NoBaseUrl\<close>, the slot remains empty, and the resident-byte counter is
  unchanged. The constructor keeps an absent base location (\<open>init_baseUrl_None\<close>).
\<close>

theorem getPage_NoBaseUrl:
  assumes "\<not> isBundled_doc d" "baseUrl d = None" "1 \<le> n" "n \<le> int (length (pages d))"
    "slot (pages d) (n - 1) = None"
  shows "fst (getPage en n d) = Inl NoBaseUrlDjVuError
         \<and> slot (pages (snd (getPage en n d))) (n - 1) = None
         \<and> pages (snd (getPage en n d)) = pages d
         \<and> memoryUsage (snd (getPage en n d)) = memoryUsage d
         \<and> fetchLog (snd (getPage en n d)) = fetchLog d"
  using assms
  by (auto simp: getPage_def Let_def isBundled_doc_def reset_page_def split: option.splits)

theorem getPage_NoBaseUrl_witness:
  "\<not> isBundled_doc (ex_indirect None 1000) \<and> baseUrl (ex_indirect None 1000) = None
   \<and> (1::int) \<le> 2 \<and> 2 \<le> int (length (pages (ex_indirect None 1000)))
   \<and> slot (pages (ex_indirect None 1000)) (2 - 1) = None
   \<and> fst (getPage ex_env 2 (ex_indirect None 1000)) = Inl NoBaseUrlDjVuError
   \<and> slot (pages (snd (getPage ex_env 2 (ex_indirect None 1000)))) (2 - 1) = None
   \<and> memoryUsage (snd (getPage ex_env 2 (ex_indirect None 1000))) = Some 100"
proof -
  have h: "\<not> isBundled_doc (ex_indirect None 1000)" "baseUrl (ex_indirect None 1000) = None"
    "(1::int) \<le> 2" "2 \<le> int (length (pages (ex_indirect None 1000)))"
    "slot (pages (ex_indirect None 1000)) (2 - 1) = None"
    by (simp_all add: ex_indirect_def isBundled_doc_def ex_dirm_def slot_def js_nth_def)
  have m: "memoryUsage (ex_indirect None 1000) = Some 100" by (simp add: ex_indirect_def)
  from getPage_NoBaseUrl [OF h, of ex_env] h m show ?thesis by simp
qed

text \<open>
  Claim C10. Every \<open>getPage(n)\<close> call, including calls that fail with
  \<open>NoSuchPage\<close> or \<open>NoBaseUrl\<close>, first releases the decode state of the
  previously returned page (when the requested slot holds a different instance) and
  overwrites the currently-held decode-state pointer with the requested slot's content, so
  the error path is not state-preserving with respect to the previous page's decode state.
  In the document which any call returns, the previously returned page holds no decode
  state; a call that fails with one of the two errors leaves \<open>lastRequestedPage\<close> equal to
  the requested slot, the heap with that release only, and the slots and the counter as
  they were.
\<close>

theorem getPage_releases_previous:
  "(lastRequestedPage d = Some l \<and> slot (pages d) (n - 1) \<noteq> Some l
      \<longrightarrow> \<not> decoded (heap (snd (getPage en n d)) l))
   \<and> (fst (getPage en n d) = Inl (NoSuchPageDjVuError n)
        \<or> fst (getPage en n d) = Inl NoBaseUrlDjVuError
      \<longrightarrow> lastRequestedPage (snd (getPage en n d)) = slot (pages d) (n - 1)
          \<and> heap (snd (getPage en n d)) =
              (case lastRequestedPage d of
                 None \<Rightarrow> heap d
               | Some l \<Rightarrow>
                   if slot (pages d) (n - 1) \<noteq> Some l
                   then (heap d)(l := (heap d l)\<lparr>decoded := False\<rparr>)
                   else heap d)
          \<and> pages (snd (getPage en n d)) = pages d
          \<and> memoryUsage (snd (getPage en n d)) = memoryUsage d)"
proof (rule conjI; rule impI)
  assume h: "lastRequestedPage d = Some l \<and> slot (pages d) (n - 1) \<noteq> Some l"
  then have "\<not> decoded (heap (release_previous n d) l)"
    by (auto simp: release_previous_def reset_page_def)
  with getPage_no_new_decode [of n d en]
  show "\<not> decoded (heap (snd (getPage en n d)) l)"
    by (simp add: no_new_decode_def)
next
  assume e: "fst (getPage en n d) = Inl (NoSuchPageDjVuError n)
             \<or> fst (getPage en n d) = Inl NoBaseUrlDjVuError"
  have "snd (getPage en n d) = release_previous n d"
  proof (cases "slot (pages d) (n - 1)")
    case None
    show ?thesis
    proof (cases "n < 1 \<or> n > int (length (pages d)) \<or> isBundled_doc d \<or> baseUrl d = None")
      case True
      with None show ?thesis by (auto simp: getPage_unfold Let_def)
    next
      case False
      then obtain b where b: "baseUrl d = Some b" by auto
      with False None have "getPage en n d = fetch_page en n b (release_previous n d)"
        by (simp add: getPage_unfold Let_def)
      with e fetch_page_error [of en n b "release_previous n d"] show ?thesis
        by (auto simp: transport_error_def)
    qed
  next
    case (Some p)
    with e loadDependencies_error [of en "dependencies (heap d p)" "Some 1" "release_previous n d"]
    show ?thesis
      by (auto simp: getPage_unfold Let_def transport_error_def
               split: if_splits prod.splits option.splits)
  qed
  then show "lastRequestedPage (snd (getPage en n d)) = slot (pages d) (n - 1)
          \<and> heap (snd (getPage en n d)) =
              (case lastRequestedPage d of
                 None \<Rightarrow> heap d
               | Some l \<Rightarrow>
                   if slot (pages d) (n - 1) \<noteq> Some l
                   then (heap d)(l := (heap d l)\<lparr>decoded := False\<rparr>)
                   else heap d)
          \<and> pages (snd (getPage en n d)) = pages d
          \<and> memoryUsage (snd (getPage en n d)) = memoryUsage d"
    by (auto simp: release_previous_def reset_page_def split: option.splits)
qed

theorem getPage_releases_previous_witness:
  "lastRequestedPage ex_single = Some 0 \<and> slot (pages ex_single) (2 - 1) \<noteq> Some 0
   \<and> decoded (heap ex_single 0)
   \<and> fst (getPage ex_env 2 ex_single) = Inl (NoSuchPageDjVuError 2)
   \<and> \<not> decoded (heap (snd (getPage ex_env 2 ex_single)) 0)
   \<and> lastRequestedPage (snd (getPage ex_env 2 ex_single)) = None"
proof -
  have h: "lastRequestedPage ex_single = Some 0 \<and> slot (pages ex_single) (2 - 1) \<noteq> Some 0"
    by (simp add: ex_single_def slot_def js_nth_def)
  have e: "fst (getPage ex_env 2 ex_single) = Inl (NoSuchPageDjVuError 2)"
    by code_simp
  have d: "decoded (heap ex_single 0)" by (simp add: ex_single_def)
  have s: "slot (pages ex_single) (2 - 1) = None" by (simp add: ex_single_def slot_def js_nth_def)
  from getPage_releases_previous [of ex_single 0 2 ex_env] h e d s show ?thesis by simp
qed

text \<open>
  Claim C9. For every document and every valid page number \<open>n\<close>, calling
  \<open>getPage(n)\<close> twice in sequence without intervening eviction returns referentially
  the same resident page object both times, and the second call performs no additional
  fetch. The second call may be served by any transport \<open>en'\<close>: it returns the same
  reference, which is the content of the slot, and leaves the fetch log, the slots and the
  heap as the first call left them.
\<close>

theorem getPage_twice:
  assumes "fst (getPage en n d) = Inr r"
  shows "(\<exists>a. r = Some a \<and> slot (pages (snd (getPage en n d))) (n - 1) = Some a)
         \<and> fst (getPage en' n (snd (getPage en n d))) = Inr r
         \<and> fetchLog (snd (getPage en' n (snd (getPage en n d)))) = fetchLog (snd (getPage en n d))
         \<and> pages (snd (getPage en' n (snd (getPage en n d)))) = pages (snd (getPage en n d))
         \<and> heap (snd (getPage en' n (snd (getPage en n d)))) = heap (snd (getPage en n d))"
proof -
  define d' where "d' = snd (getPage en n d)"
  from getPage_success [OF assms] obtain a where r: "r = Some a"
    and s: "slot (pages d') (n - 1) = Some a" and l: "lastRequestedPage d' = Some a"
    and c: "isOnePageDependenciesLoaded d' \<or> doc_id d' \<noteq> ''FORMDJVU''
            \<or> set (dependencies (heap d' a)) \<subseteq> fst ` set (djvi d')"
    unfolding d'_def by blast
  have rp: "release_previous n d' = d'"
    by (rule release_previous_idle) (simp add: s l)
  have "\<exists>f. getPage en' n d' = (Inr (Some a), d'\<lparr>isOnePageDependenciesLoaded := f\<rparr>)"
  proof (cases "\<not> isOnePageDependenciesLoaded d' \<and> doc_id d' = ''FORMDJVU''")
    case False
    then have "getPage en' n d' = (Inr (Some a), d')"
      using s by (auto simp: getPage_unfold Let_def rp)
    moreover have "d' = d'\<lparr>isOnePageDependenciesLoaded := isOnePageDependenciesLoaded d'\<rparr>"
      by simp
    ultimately show ?thesis by metis
  next
    case True
    with c have "set (dependencies (heap d' a)) \<subseteq> fst ` set (djvi d')" by simp
    from loadDependencies_loaded [OF this]
    have "getPage en' n d' = (Inr (Some a), d'\<lparr>isOnePageDependenciesLoaded := True\<rparr>)"
      using True s l by (simp add: getPage_unfold Let_def rp)
    then show ?thesis by blast
  qed
  then obtain f where "getPage en' n d' = (Inr (Some a), d'\<lparr>isOnePageDependenciesLoaded := f\<rparr>)"
    by blast
  with r s show ?thesis unfolding d'_def [symmetric] by simp
qed

theorem getPage_twice_witness:
  "fst (getPage ex_env 1 (ex_indirect (Some ''http://h/'') 1000)) = Inr (Some 0)
   \<and> fst (getPage ex_env 1 (snd (getPage ex_env 1 (ex_indirect (Some ''http://h/'') 1000))))
       = Inr (Some 0)
   \<and> fetchLog (snd (getPage ex_env 1
         (snd (getPage ex_env 1 (ex_indirect (Some ''http://h/'') 1000)))))
       = [''http://h/p1.djvu'', ''http://h/dict.iff'']"
proof -
  have h: "fst (getPage ex_env 1 (ex_indirect (Some ''http://h/'') 1000)) = Inr (Some 0)"
    by code_simp
  have l: "fetchLog (snd (getPage ex_env 1 (ex_indirect (Some ''http://h/'') 1000)))
             = [''http://h/p1.djvu'', ''http://h/dict.iff'']"
    by code_simp
  from getPage_twice [OF h, of ex_env] h l show ?thesis by simp
qed




text \<open>
  Claim C3, as stated: after every sequence of successful page loads on an indirect
  document the resident-byte counter equals the exact sum of the byte lengths of the loaded
  pages and the resident shared resources. The claim fails: the constructor starts the
  counter at the byte length of the document's own buffer, so after one successful load of a
  40-byte page with a 10-byte dictionary on a 100-byte document the counter is 150 and the
  sum is 50.
\<close>

theorem resident_bytes_counterexample:
  "DjVuDocument ex_resolve ex_view (Some ''http://h/'') 1000
     = Inr (ex_indirect (Some ''http://h/'') 1000)
   \<and> fst (getPage ex_env 1 (ex_indirect (Some ''http://h/'') 1000)) = Inr (Some 0)
   \<and> memoryUsage (snd (getPage ex_env 1 (ex_indirect (Some ''http://h/'') 1000))) = Some 150
   \<and> resident_bytes (snd (getPage ex_env 1 (ex_indirect (Some ''http://h/'') 1000))) = 50"
proof -
  have "init_baseUrl ex_resolve (Some ''http://h/'') = Some ''http://h/''"
    by code_simp
  with ex_constructed [of "Some ''http://h/''" 1000]
  have c: "DjVuDocument ex_resolve ex_view (Some ''http://h/'') 1000
     = Inr (ex_indirect (Some ''http://h/'') 1000)" by simp
  have "fst (getPage ex_env 1 (ex_indirect (Some ''http://h/'') 1000)) = Inr (Some 0)"
    by code_simp
  moreover
  have "memoryUsage (snd (getPage ex_env 1 (ex_indirect (Some ''http://h/'') 1000))) = Some 150"
    by code_simp
  moreover
  have "resident_bytes (snd (getPage ex_env 1 (ex_indirect (Some ''http://h/'') 1000))) = 50"
    by code_simp
  ultimately show ?thesis using c by simp
qed

text \<open>
  Claim C3, amended. For every indirect document built by the constructor and every
  sequence of successful page loads (and changes of the budget) in which each fetched page
  lists each dependency once, the resident-byte counter equals the byte length of the
  document's own buffer plus the exact sum of the byte lengths of the currently loaded pages
  and the currently resident shared resources. And after every run of the memory governor
  that returns, on a document whose counter is defined, either the counter is at most the
  budget, or the load-order list is empty and every resident shared resource is in the
  preserve set.
\<close>

theorem resident_bytes_accounting:
  assumes "DjVuDocument resolve bv b limit = Inr d0" "\<not> isBundled_doc d0"
    and "successful_loads d0 d"
  shows "memoryUsage d = Some (int (bv_byteLength bv) + resident_bytes d)
         \<and> (\<forall>ps d1 d1'. memoryUsage d1 \<noteq> None \<and> releaseMemoryIfRequired ps d1 = (None, d1')
               \<longrightarrow> usage_le_limit d1'
                   \<or> (loadedPageNumbers d1' = Some []
                       \<and> fst ` set (djvi d1') \<subseteq> set (preserved_list ps)))"
proof -
  from indirect_document_accounted [OF assms(1,2)]
  have "accounted (int (bv_byteLength bv)) 0 d0" "doc_id d0 \<noteq> ''FORMDJVU''" by simp_all
  from successful_loads_accounted [OF assms(3) this]
  have "accounted (int (bv_byteLength bv)) 0 d" by simp
  then have "memoryUsage d = Some (int (bv_byteLength bv) + resident_bytes d)"
    by (simp add: accounted_def resident_bytes_def)
  with releaseMemoryIfRequired_post show ?thesis by blast
qed

theorem resident_bytes_accounting_witness:
  "successful_loads (ex_indirect (Some ''http://h/'') 105)
     (snd (getPage ex_env 2 (snd (getPage ex_env 1 (ex_indirect (Some ''http://h/'') 105)))))
   \<and> memoryUsage (snd (getPage ex_env 2 (snd (getPage ex_env 1
          (ex_indirect (Some ''http://h/'') 105)))))
       = Some (100 + resident_bytes (snd (getPage ex_env 2 (snd (getPage ex_env 1
          (ex_indirect (Some ''http://h/'') 105))))))
   \<and> resident_bytes (snd (getPage ex_env 2 (snd (getPage ex_env 1
          (ex_indirect (Some ''http://h/'') 105))))) = 40
   \<and> \<not> usage_le_limit (snd (releaseMemoryIfRequired (Some [''dict''])
          (snd (getPage ex_env 1 (ex_indirect (Some ''http://h/'') 105)))))
   \<and> loadedPageNumbers (snd (releaseMemoryIfRequired (Some [''dict''])
          (snd (getPage ex_env 1 (ex_indirect (Some ''http://h/'') 105))))) = Some []
   \<and> fst ` set (djvi (snd (releaseMemoryIfRequired (Some [''dict''])
          (snd (getPage ex_env 1 (ex_indirect (Some ''http://h/'') 105))))))
       \<subseteq> set (preserved_list (Some [''dict'']))"
proof -
  let ?d0 = "ex_indirect (Some ''http://h/'') 105"
  let ?d1 = "snd (getPage ex_env 1 ?d0)"
  let ?d2 = "snd (getPage ex_env 2 ?d1)"
  have "init_baseUrl ex_resolve (Some ''http://h/'') = Some ''http://h/''"
    by code_simp
  with ex_constructed [of "Some ''http://h/''" 105]
  have c: "DjVuDocument ex_resolve ex_view (Some ''http://h/'') 105 = Inr ?d0" by simp
  have nb: "\<not> isBundled_doc ?d0" by (simp add: ex_indirect_def isBundled_doc_def ex_dirm_def)
  have "fst (getPage ex_env 1 ?d0) = Inr (Some 0)" by code_simp
  then have g1: "getPage ex_env 1 ?d0 = (Inr (Some 0), ?d1)"
    by (metis prod.collapse)
  have "fst (getPage ex_env 2 ?d1) = Inr (Some 1)" by code_simp
  then have g2: "getPage ex_env 2 ?d1 = (Inr (Some 1), ?d2)"
    by (metis prod.collapse)
  have s: "successful_loads ?d0 ?d2"
    by (rule successful_loads.load [OF successful_loads.load [OF successful_loads.no_load
          ex_env_dependency_sets g1] ex_env_dependency_sets g2])
  have rb: "resident_bytes ?d2 = 40" by code_simp
  have bl: "int (bv_byteLength ex_view) = 100" by (simp add: ex_view_def)
  have m1: "memoryUsage ?d1 \<noteq> None" by code_simp
  have "fst (releaseMemoryIfRequired (Some [''dict'']) ?d1) = None" by code_simp
  then have r: "releaseMemoryIfRequired (Some [''dict'']) ?d1
                  = (None, snd (releaseMemoryIfRequired (Some [''dict'']) ?d1))"
    by (metis prod.collapse)
  have nle: "\<not> usage_le_limit (snd (releaseMemoryIfRequired (Some [''dict'']) ?d1))"
    by code_simp
  from resident_bytes_accounting [OF c nb s] bl m1 r nle rb s show ?thesis
    by (simp del: One_nat_def) blast
qed



text \<open>
  Claim C4. For every pair of documents A and B whose directory identifiers are each
  internally unique, \<open>concat(A, B)\<close> produces a directory in which no two entries
  share an identifier (second-document identifiers that collide are suffixed with an
  increasing numeric counter until unique), and the output directory's flag word marks the
  merged container as bundled.

  The identifiers of the first document's directory are pairwise different, and the
  directory has at least as many entries as the document has page slots, as the constructor
  leaves it (\<open>unique_directory\<close>); nothing is asked of the second document. Whenever
  \<open>concat\<close> returns, the identifiers of its directory are pairwise different; its
  flag word is 129, whose top bit is the bundled flag; and the identifier written for the
  \<open>j\<close>-th entry of the second document is that entry's own identifier if no earlier
  entry of the output has it, and otherwise the identifier followed by the first counter
  value, counting from 0, which gives an identifier that no earlier entry has
  (\<open>suffixed\<close>). And \<open>concat\<close> does return when every page of both
  documents is loaded (\<open>all_loaded\<close>).
\<close>

theorem concat_unique_ids:
  assumes "unique_directory doc1"
  shows "(\<forall>out. concat_docs doc1 doc2 = Inr out \<longrightarrow>
            distinct (o_ids out) \<and> o_dflags out = 129 \<and> dflags_bundled (o_dflags out)
            \<and> (\<forall>j<length (second_ids doc2).
                  suffixed (take (first_count doc1 + j) (o_ids out)) (second_ids doc2 ! j)
                    (o_ids out ! (first_count doc1 + j))))
         \<and> (all_loaded doc1 \<and> all_loaded doc2 \<longrightarrow> (\<exists>out. concat_docs doc1 doc2 = Inr out))"
proof (intro conjI allI impI)
  fix out
  assume c: "concat_docs doc1 doc2 = Inr out"
  let ?a0 = "\<lparr>c_flags = [], c_sizes = [], c_ids = [], c_pages = [], c_idset = []\<rparr>"
  from c obtain a1 a2 ps where f: "concat_first doc1 ?a0 = Inr a1"
    and g: "concat_second doc2 a1 = Inr a2"
    and o: "out = \<lparr>o_dflags = 129, o_flags = c_flags a2, o_sizes = c_sizes a2,
                    o_ids = c_ids a2, o_pages = ps\<rparr>"
    by (auto simp: concat_docs_def Let_def split: sum.splits)
  from concat_first_ids [OF assms f] have e1: "ids_eq a1" and l1: "length (c_ids a1) = first_count doc1"
    by simp_all
  note s = concat_second_ids [OF e1 g]
  from s o show "distinct (o_ids out)" by simp
  from o show "o_dflags out = 129" by simp
  from o show "dflags_bundled (o_dflags out)" by (simp add: dflags_bundled_def)
  fix j assume "j < length (second_ids doc2)"
  with s o l1
  show "suffixed (take (first_count doc1 + j) (o_ids out)) (second_ids doc2 ! j)
          (o_ids out ! (first_count doc1 + j))"
    by simp
next
  assume "all_loaded doc1 \<and> all_loaded doc2"
  then show "\<exists>out. concat_docs doc1 doc2 = Inr out"
    using concat_docs_total by blast
qed

theorem concat_unique_ids_witness:
  "unique_directory ex_bundled \<and> all_loaded ex_bundled
   \<and> second_ids ex_bundled = [Some ''p1'']
   \<and> (\<exists>out. concat_docs ex_bundled ex_bundled = Inr out \<and> distinct (o_ids out)
          \<and> o_dflags out = 129 \<and> dflags_bundled (o_dflags out)
          \<and> o_ids out = [Some ''p1'', Some ''p10'']
          \<and> suffixed [Some ''p1''] (Some ''p1'') (Some ''p10''))"
proof -
  have u: "unique_directory ex_bundled" by code_simp
  have l: "all_loaded ex_bundled" by code_simp
  have s2: "second_ids ex_bundled = [Some ''p1'']" by code_simp
  have fc: "first_count ex_bundled = 1" by code_simp
  have i: "map_sum (\<lambda>e. e) o_ids (concat_docs ex_bundled ex_bundled)
             = Inr [Some ''p1'', Some ''p10'']"
    by code_simp
  note t = concat_unique_ids [OF u, of ex_bundled]
  from t l obtain out where o: "concat_docs ex_bundled ex_bundled = Inr out" by blast
  from i o have ids: "o_ids out = [Some ''p1'', Some ''p10'']" by simp
  from t o have d: "distinct (o_ids out)" and f: "o_dflags out = 129"
    and b: "dflags_bundled (o_dflags out)"
    and sx: "\<forall>j<length (second_ids ex_bundled).
                  suffixed (take (first_count ex_bundled + j) (o_ids out))
                    (second_ids ex_bundled ! j) (o_ids out ! (first_count ex_bundled + j))"
    by blast+
  from sx have "suffixed [Some ''p1''] (Some ''p1'') (Some ''p10'')"
    by (simp add: s2 fc ids)
  with o d f b ids
  have "\<exists>out. concat_docs ex_bundled ex_bundled = Inr out \<and> distinct (o_ids out)
          \<and> o_dflags out = 129 \<and> dflags_bundled (o_dflags out)
          \<and> o_ids out = [Some ''p1'', Some ''p10'']
          \<and> suffixed [Some ''p1''] (Some ''p1'') (Some ''p10'')"
    by (intro exI [of _ out]) simp
  with u l s2 show ?thesis by simp
qed

text \<open>
  Claim C2: \<open>slice(1, pageCount)\<close> keeps the page count, every page's dependencies
  are among the shared resources of the sliced document, and an entry that is not a page is
  copied exactly when its identifier is a dependency of a page in range. The second loop of
  \<open>slice\<close> stops as soon as the last page in range has been copied, so a dictionary
  listed after that page is not copied: for the directory with page p1, which includes
  dict, followed by dict, the output holds p1 alone. Entries before the last page are
  treated as the claim says (\<open>slice_pass2_pages\<close>, \<open>slice_pass2_others\<close>).
\<close>

theorem slice_drops_trailing_dictionary:
  "slice ex_pageDeps ex_bundled 1 (int (length (pages ex_bundled)))
     = Inr \<lparr>s_dflags = 129,
            s_entries = [\<lparr>e_flags = 1, e_size = 40, e_id = ''p1'', e_name = ''p1.djvu'',
                          e_title = [], e_offset = 48\<rparr>],
            s_navm = False\<rparr>
   \<and> ex_pageDeps 48 40 = [''dict'']
   \<and> entries ex_bundled_dirm ! 1
       = \<lparr>e_flags = 0, e_size = 10, e_id = ''dict'', e_name = ''dict.iff'', e_title = [],
          e_offset = 88\<rparr>"
  by code_simp

text \<open>
  Claim C8: for every document, \<open>getPageNumberByUrl\<close> resolves a fragment by the
  identifier map or by its number within \<open>[1, pageCount]\<close>. The constructor assigns
  \<open>idToPageNumberMap\<close> only for a multi-page document, so on a single-page document
  the lookup of \<open>#1\<close> throws a TypeError where the claim gives page 1. On a
  multi-page document the method does what the claim says
  (\<open>getPageNumberByUrl_multi_page\<close>).
\<close>

theorem getPageNumberByUrl_single_page:
  "DjVuDocument ex_resolve ex_single_view None MEMORY_LIMIT = Inr ex_single_built
   \<and> length (pages ex_single_built) = 1
   \<and> ex_roundNumber ''1'' = Some 1
   \<and> getPageNumberByUrl ex_roundNumber ex_single_built ''#1'' = Inl TypeError"
proof -
  have "DjVuDocument ex_resolve ex_single_view None MEMORY_LIMIT = Inr ex_single_built"
    by (simp add: DjVuDocument_def ex_single_view_def ex_single_built_def blank_doc_def
          Let_def alloc_page_def init_baseUrl_def)
  moreover have "getPageNumberByUrl ex_roundNumber ex_single_built ''#1'' = Inl TypeError"
    by (simp add: getPageNumberByUrl_def ex_single_built_def)
  ultimately show ?thesis by (simp add: ex_single_built_def ex_roundNumber_def)
qed

end
